theory Spec2Isabelle
  imports Complex_Main "HOL-Library.Multiset"
begin

section \<open>Data model of the detailed placer (place.cpp)\<close>

text \<open>
  The file under study is \<^verbatim>\<open>src/opendp/src/place.cpp\<close>. It drives the legalisation
  pipeline and calls a grid service (\<^verbatim>\<open>map_move\<close>, \<^verbatim>\<open>shift_move\<close>, \<^verbatim>\<open>swap_cell\<close>,
  \<^verbatim>\<open>refine_move\<close>, \<^verbatim>\<open>erase_pixel\<close>) and geometric helpers that live in other files.
  Cells are referred to by pointer in the C++; here a pointer is the index of the cell in
  a store \<open>nat \<Rightarrow> Cell\<close>.
\<close>

record adsRect =
  xMin :: int
  yMin :: int
  xMax :: int
  yMax :: int

text \<open>
  The fields of \<^verbatim>\<open>Cell\<close> that place.cpp reads or writes. \<open>inst_id\<close> is
  \<^verbatim>\<open>db_inst->getId()\<close>, \<open>area\<close> is \<^verbatim>\<open>area()\<close>, \<open>isMulti\<close> is \<^verbatim>\<open>cell_macro->isMulti\<close>,
  \<open>in_group\<close> is \<^verbatim>\<open>inGroup()\<close>. \<open>dense_factor\<close> is a C++ floating-point number, taken
  here as a real number. \<open>x_coord\<close>, \<open>y_coord\<close> are the committed position kept by the
  grid service.
\<close>

record Cell =
  inst_id :: nat
  area :: int
  dense_factor :: real
  isMulti :: bool
  in_group :: bool
  region :: adsRect
  is_placed :: bool
  hold :: bool
  x_coord :: int
  y_coord :: int

text \<open>
  A group: \<open>siblings\<close> holds the indices of its cells; \<open>util\<close> is a C++ floating-point
  number, taken as a real.
\<close>

record Group =
  siblings :: "nat list"
  regions :: "adsRect list"
  boundary :: adsRect
  util :: real

text \<open>What the grid service owns and mutates: the cells and the pixel occupancy.\<close>

record world =
  cell :: "nat \<Rightarrow> Cell"
  grid :: "int \<times> int \<Rightarrow> nat option"

text \<open>
  The calls that place.cpp makes to the grid service, in the order they are made, with
  the result where the caller receives one.
\<close>

datatype event =
    MapMove nat bool
  | MapMoveAt nat int int bool
  | ShiftMove nat
  | ErasePixel nat
  | RefineMove nat bool
  | SwapCell nat nat bool

text \<open>
  The \<^verbatim>\<open>Opendp\<close> object as place.cpp sees it: \<open>cells_n\<close> is \<^verbatim>\<open>cells_.size()\<close> (cell
  \<open>i\<close> of \<^verbatim>\<open>cells_\<close> is \<open>cell (st s) i\<close>), the two fractions are the members
  \<^verbatim>\<open>group_refine_percent_\<close> and \<^verbatim>\<open>non_group_refine_percent_\<close> (C++ floating-point
  numbers, taken as reals), \<open>seed\<close> is the state of the C library's
  \<^verbatim>\<open>rand\<close>, and \<open>calls\<close> records the grid-service calls made so far.
\<close>

record opendp =
  cells_n :: nat
  groups :: "Group list"
  group_refine_percent :: real
  non_group_refine_percent :: real
  st :: world
  seed :: nat
  calls :: "event list"

text \<open>
  The functions of the repository that place.cpp calls and that are defined elsewhere
  are parameters of the model. The grid operations see and change the \<open>world\<close> only.
  \<open>rand_next\<close> is one step of the C library generator: from its state, the number
  returned and the next state.
\<close>

record service =
  map_move :: "nat \<Rightarrow> world \<Rightarrow> bool \<times> world"
  map_move_at :: "nat \<Rightarrow> int \<Rightarrow> int \<Rightarrow> world \<Rightarrow> bool \<times> world"
  shift_move :: "nat \<Rightarrow> world \<Rightarrow> bool \<times> world"
  swap_cell :: "nat \<Rightarrow> nat \<Rightarrow> world \<Rightarrow> bool \<times> world"
  refine_move :: "nat \<Rightarrow> world \<Rightarrow> bool \<times> world"
  isFixed :: "Cell \<Rightarrow> bool"
  initLocation :: "Cell \<Rightarrow> int \<times> int"
  disp :: "Cell \<Rightarrow> int"
  check_overlap :: "Cell \<Rightarrow> adsRect \<Rightarrow> bool"
  check_inside :: "Cell \<Rightarrow> adsRect \<Rightarrow> bool"
  dist_for_rect :: "Cell \<Rightarrow> adsRect \<Rightarrow> int"
  nearest_coord_to_rect_boundary :: "Cell \<Rightarrow> adsRect \<Rightarrow> int \<times> int"
  group_cell_region_assign :: "Group list \<Rightarrow> world \<Rightarrow> Group list \<times> world"
  non_group_cell_region_assign :: "Group list \<Rightarrow> world \<Rightarrow> Group list \<times> world"
  rand_next :: "nat \<Rightarrow> nat \<times> nat"

text \<open>
  place.cpp reads three local variables that no statement has written: \<^verbatim>\<open>x_tar\<close>,
  \<^verbatim>\<open>y_tar\<close> in the two brick placers (the four-argument \<^verbatim>\<open>rectDist\<close> takes them by
  value), the same two in the two-argument \<^verbatim>\<open>rectDist\<close>, and \<^verbatim>\<open>target\<close> in
  \<^verbatim>\<open>group_cell_pre_placement\<close> when no region is nearer than \<^verbatim>\<open>INT_MAX\<close>. The language
  gives them no value; the model takes the values they happen to hold as an input,
  one per cell handled.
\<close>

record uninit =
  brick_tar :: "nat \<Rightarrow> int \<times> int"
  dist_tar :: "nat \<Rightarrow> int \<times> int"
  pre_target :: "nat \<Rightarrow> adsRect"

section \<open>The comparator and the sort\<close>

definition sortUpOrder :: "Cell \<Rightarrow> Cell \<Rightarrow> bool" where
  "sortUpOrder cell1 cell2 =
     (let area1 = area cell1; area2 = area cell2 in
      if area1 > area2 then True
      else if area1 < area2 then False
      else if dense_factor cell1 > dense_factor cell2 then True
      else if dense_factor cell1 < dense_factor cell2 then False
      else inst_id cell1 < inst_id cell2)"

text \<open>
  \<^verbatim>\<open>std::sort\<close> with a comparator, as an insertion sort: an element goes behind every
  element that precedes it under the comparator and in front of the first that does not.
\<close>

fun insert_by :: "('a \<Rightarrow> 'a \<Rightarrow> bool) \<Rightarrow> 'a \<Rightarrow> 'a list \<Rightarrow> 'a list" where
  "insert_by lt x [] = [x]"
| "insert_by lt x (y # ys) = (if lt y x then y # insert_by lt x ys else x # y # ys)"

fun sort_by :: "('a \<Rightarrow> 'a \<Rightarrow> bool) \<Rightarrow> 'a list \<Rightarrow> 'a list" where
  "sort_by lt [] = []"
| "sort_by lt (x # xs) = insert_by lt x (sort_by lt xs)"

section \<open>Calls to the grid service\<close>

definition call_map_move :: "service \<Rightarrow> nat \<Rightarrow> opendp \<Rightarrow> bool \<times> opendp" where
  "call_map_move svc c s =
     (let (ok, w) = map_move svc c (st s)
      in (ok, s\<lparr>st := w, calls := calls s @ [MapMove c ok]\<rparr>))"

definition call_map_move_at :: "service \<Rightarrow> nat \<Rightarrow> int \<Rightarrow> int \<Rightarrow> opendp \<Rightarrow> bool \<times> opendp" where
  "call_map_move_at svc c x y s =
     (let (ok, w) = map_move_at svc c x y (st s)
      in (ok, s\<lparr>st := w, calls := calls s @ [MapMoveAt c x y ok]\<rparr>))"

definition call_shift_move :: "service \<Rightarrow> nat \<Rightarrow> opendp \<Rightarrow> opendp" where
  "call_shift_move svc c s =
     (let (ok, w) = shift_move svc c (st s)
      in s\<lparr>st := w, calls := calls s @ [ShiftMove c]\<rparr>)"

definition call_swap_cell :: "service \<Rightarrow> nat \<Rightarrow> nat \<Rightarrow> opendp \<Rightarrow> bool \<times> opendp" where
  "call_swap_cell svc a b s =
     (let (ok, w) = swap_cell svc a b (st s)
      in (ok, s\<lparr>st := w, calls := calls s @ [SwapCell a b ok]\<rparr>))"

definition call_refine_move :: "service \<Rightarrow> nat \<Rightarrow> opendp \<Rightarrow> bool \<times> opendp" where
  "call_refine_move svc c s =
     (let (ok, w) = refine_move svc c (st s)
      in (ok, s\<lparr>st := w, calls := calls s @ [RefineMove c ok]\<rparr>))"

text \<open>
  Modelled from the spec: \<^verbatim>\<open>erase_pixel\<close> is defined outside place.cpp. The spec's
  contract for it (release) is: erase a committed cell's footprint from the grid and
  reset its placed state.
\<close>

definition erase_pixel :: "nat \<Rightarrow> world \<Rightarrow> world" where
  "erase_pixel c w =
     w\<lparr>cell := (cell w)(c := (cell w c)\<lparr>is_placed := False\<rparr>),
       grid := (\<lambda>p. if grid w p = Some c then None else grid w p)\<rparr>"

definition call_erase_pixel :: "nat \<Rightarrow> opendp \<Rightarrow> opendp" where
  "call_erase_pixel c s = s\<lparr>st := erase_pixel c (st s), calls := calls s @ [ErasePixel c]\<rparr>"

definition set_hold :: "nat \<Rightarrow> opendp \<Rightarrow> opendp" where
  "set_hold c s = s\<lparr>st := (st s)\<lparr>cell := (cell (st s))(c := (cell (st s) c)\<lparr>hold := True\<rparr>)\<rparr>\<rparr>"

abbreviation cell_of :: "opendp \<Rightarrow> nat \<Rightarrow> Cell" where
  "cell_of s c \<equiv> cell (st s) c"


section \<open>Faults\<close>

text \<open>
  Two places where the run does not continue: the \<^verbatim>\<open>assert(cell->inGroup())\<close> of
  \<^verbatim>\<open>group_cell_placement\<close>, and an index past the end of \<^verbatim>\<open>sort_by_disp\<close> in the
  refiners (the loop bound is \<^verbatim>\<open>size * percent\<close>, which exceeds the size when the
  fraction exceeds one).
\<close>

datatype fault = AssertInGroup | IndexOutOfRange

section \<open>Pre-placement\<close>

text \<open>
  The two nested loops of \<^verbatim>\<open>non_group_cell_pre_placement\<close> over the groups and their
  regions. The loop state is the pair of locals \<^verbatim>\<open>inGroup\<close> and \<^verbatim>\<open>target\<close>; \<open>None\<close>
  is the pointer before its first assignment. The two are assigned together, so the
  pointer is set whenever the flag is.
\<close>

definition overlap_regions ::
  "service \<Rightarrow> Cell \<Rightarrow> adsRect list \<Rightarrow> bool \<times> adsRect option \<Rightarrow> bool \<times> adsRect option" where
  "overlap_regions svc c rects =
     fold (\<lambda>rect (inGroup, target).
             if check_overlap svc c rect then (True, Some rect) else (inGroup, target)) rects"

definition overlap_groups :: "service \<Rightarrow> Cell \<Rightarrow> Group list \<Rightarrow> bool \<times> adsRect option" where
  "overlap_groups svc c gs = fold (\<lambda>g. overlap_regions svc c (regions g)) gs (False, None)"

definition non_group_pre_place_cell :: "service \<Rightarrow> nat \<Rightarrow> opendp \<Rightarrow> opendp" where
  "non_group_pre_place_cell svc i s =
     (if \<not> in_group (cell_of s i) \<and> \<not> is_placed (cell_of s i) then
        (case overlap_groups svc (cell_of s i) (groups s) of
           (inGroup, target) \<Rightarrow>
             if inGroup then
               (case target of
                  None \<Rightarrow> s
                | Some rect \<Rightarrow>
                    (let (x, y) = nearest_coord_to_rect_boundary svc (cell_of s i) rect;
                         (ok, s1) = call_map_move_at svc i x y s
                     in if ok then set_hold i s1 else s1))
             else s)
      else s)"

definition non_group_cell_pre_placement :: "service \<Rightarrow> opendp \<Rightarrow> opendp" where
  "non_group_cell_pre_placement svc s = fold (non_group_pre_place_cell svc) [0..<cells_n s] s"

definition INT_MAX :: int where
  "INT_MAX = 2147483647"

text \<open>
  The region loop of \<^verbatim>\<open>group_cell_pre_placement\<close>; the loop state is \<^verbatim>\<open>dist\<close> (here \<open>dist_v\<close>),
  \<^verbatim>\<open>in_group\<close>, \<^verbatim>\<open>target\<close>.
\<close>

definition nearest_region ::
  "service \<Rightarrow> Cell \<Rightarrow> adsRect list \<Rightarrow> int \<times> bool \<times> adsRect option" where
  "nearest_region svc c rects =
     fold (\<lambda>rect (dist_v, in_grp, target).
             (let in_grp1 = (if check_inside svc c rect then True else in_grp);
                  temp_dist = dist_for_rect svc c rect
              in if temp_dist < dist_v then (temp_dist, in_grp1, Some rect)
                 else (dist_v, in_grp1, target)))
          rects (INT_MAX, False, None)"

definition group_pre_place_cell :: "service \<Rightarrow> uninit \<Rightarrow> Group \<Rightarrow> nat \<Rightarrow> opendp \<Rightarrow> opendp" where
  "group_pre_place_cell svc un g i s =
     (if \<not> (isFixed svc (cell_of s i) \<or> is_placed (cell_of s i)) then
        (case nearest_region svc (cell_of s i) (regions g) of
           (dist_v, in_grp, target) \<Rightarrow>
             if \<not> in_grp then
               (let rect = (case target of None \<Rightarrow> pre_target un i | Some r \<Rightarrow> r);
                    (x, y) = nearest_coord_to_rect_boundary svc (cell_of s i) rect;
                    (ok, s1) = call_map_move_at svc i x y s
                in if ok then set_hold i s1 else s1)
             else s)
      else s)"

definition group_cell_pre_placement :: "service \<Rightarrow> uninit \<Rightarrow> opendp \<Rightarrow> opendp" where
  "group_cell_pre_placement svc un s =
     fold (\<lambda>g. fold (group_pre_place_cell svc un g) (siblings g)) (groups s) s"

section \<open>Greedy placement\<close>

definition sorted_cell_list :: "opendp \<Rightarrow> nat list \<Rightarrow> nat list" where
  "sorted_cell_list s cs = sort_by (\<lambda>i j. sortUpOrder (cell_of s i) (cell_of s j)) cs"

text \<open>
  The body of the two loops of \<^verbatim>\<open>non_group_cell_placement\<close>: the first loop handles the
  cells whose macro is multi-row (\<open>multi = True\<close>), the second the others.
\<close>

definition place_or_shift :: "service \<Rightarrow> bool \<Rightarrow> nat \<Rightarrow> opendp \<Rightarrow> opendp" where
  "place_or_shift svc multi c s =
     (if isMulti (cell_of s c) = multi then
        (let (ok, s1) = call_map_move svc c s
         in if \<not> ok then call_shift_move svc c s1 else s1)
      else s)"

definition non_group_cell_placement :: "service \<Rightarrow> opendp \<Rightarrow> opendp" where
  "non_group_cell_placement svc s =
     (let cell_list = sorted_cell_list s
            (filter (\<lambda>i. \<not> (isFixed svc (cell_of s i) \<or> in_group (cell_of s i)
                              \<or> is_placed (cell_of s i))) [0..<cells_n s]);
          s1 = fold (place_or_shift svc True) cell_list s
      in fold (place_or_shift svc False) cell_list s1)"

text \<open>
  The two loops of \<^verbatim>\<open>group_cell_placement\<close> over \<^verbatim>\<open>cell_list\<close>. The flag is
  \<^verbatim>\<open>multi_pass\<close> (\<^verbatim>\<open>single_pass\<close>); a failed \<^verbatim>\<open>map_move\<close> leaves the loop.
\<close>

fun place_multi_deck ::
  "service \<Rightarrow> nat list \<Rightarrow> bool \<Rightarrow> opendp \<Rightarrow> fault + (bool \<times> opendp)" where
  "place_multi_deck svc [] multi_pass s = Inr (multi_pass, s)"
| "place_multi_deck svc (c # cs) multi_pass s =
     (if \<not> isFixed svc (cell_of s c) \<and> \<not> is_placed (cell_of s c) then
        if \<not> in_group (cell_of s c) then Inl AssertInGroup
        else if isMulti (cell_of s c) then
          (let (ok, s1) = call_map_move svc c s
           in if \<not> ok then Inr (False, s1) else place_multi_deck svc cs ok s1)
        else place_multi_deck svc cs multi_pass s
      else place_multi_deck svc cs multi_pass s)"

fun place_single_deck ::
  "service \<Rightarrow> nat list \<Rightarrow> bool \<Rightarrow> opendp \<Rightarrow> fault + (bool \<times> opendp)" where
  "place_single_deck svc [] single_pass s = Inr (single_pass, s)"
| "place_single_deck svc (c # cs) single_pass s =
     (if \<not> isFixed svc (cell_of s c) \<and> \<not> is_placed (cell_of s c) then
        if \<not> in_group (cell_of s c) then Inl AssertInGroup
        else if \<not> isMulti (cell_of s c) then
          (let (ok, s1) = call_map_move svc c s
           in if \<not> ok then Inr (False, s1) else place_single_deck svc cs ok s1)
        else place_single_deck svc cs single_pass s
      else place_single_deck svc cs single_pass s)"

section \<open>Brick placement\<close>

text \<open>C++ integer division rounds towards zero.\<close>

definition cdiv :: "int \<Rightarrow> int \<Rightarrow> int" where
  "cdiv a b = sgn a * sgn b * (\<bar>a\<bar> div \<bar>b\<bar>)"

text \<open>
  The four-argument \<^verbatim>\<open>rectDist\<close> returns nothing and receives \<^verbatim>\<open>x_tar\<close>, \<^verbatim>\<open>y_tar\<close> by
  value: what it computes stays in its own copies. \<open>rectDist_tar\<close> is the pair those
  copies hold when the function returns; no caller can see it.
\<close>

definition rectDist_tar :: "service \<Rightarrow> Cell \<Rightarrow> adsRect \<Rightarrow> int \<Rightarrow> int \<Rightarrow> int \<times> int" where
  "rectDist_tar svc c rect x_tar0 y_tar0 =
     (let (init_x, init_y) = initLocation svc c;
          x_tar = (if init_x > cdiv (xMin rect + xMax rect) 2 then xMax rect else xMin rect);
          y_tar = (if init_y > cdiv (yMin rect + yMax rect) 2 then yMax rect else yMin rect)
      in (x_tar, y_tar))"

text \<open>
  The two-argument \<^verbatim>\<open>rectDist\<close>: its locals \<^verbatim>\<open>x_tar\<close>, \<^verbatim>\<open>y_tar\<close> are declared, passed by
  value to the four-argument one, and then read. \<open>(x_tar, y_tar)\<close> is what they hold.
\<close>

definition rectDist :: "service \<Rightarrow> int \<times> int \<Rightarrow> Cell \<Rightarrow> adsRect \<Rightarrow> int" where
  "rectDist svc xy c rect =
     (let (x_tar, y_tar) = xy;
          dropped = rectDist_tar svc c rect x_tar y_tar;
          (init_x, init_y) = initLocation svc c
      in \<bar>init_x - x_tar\<bar> + \<bar>init_y - y_tar\<bar>)"

definition brick_1_cell :: "service \<Rightarrow> uninit \<Rightarrow> Group \<Rightarrow> nat \<Rightarrow> opendp \<Rightarrow> opendp" where
  "brick_1_cell svc un g c s =
     (let (x_tar, y_tar) = brick_tar un c;
          dropped = rectDist svc (dist_tar un c) (cell_of s c) (boundary g);
          (valid, s1) = call_map_move_at svc c x_tar y_tar s
      in s1)"

definition brick_placement_1 :: "service \<Rightarrow> uninit \<Rightarrow> Group \<Rightarrow> opendp \<Rightarrow> opendp" where
  "brick_placement_1 svc un g s =
     (let sort_by_dist = sort_by
            (\<lambda>cell1 cell2. rectDist svc (dist_tar un cell1) (cell_of s cell1) (boundary g)
                          < rectDist svc (dist_tar un cell2) (cell_of s cell2) (boundary g))
            (siblings g)
      in fold (brick_1_cell svc un g) sort_by_dist s)"

definition brick_2_cell :: "service \<Rightarrow> uninit \<Rightarrow> nat \<Rightarrow> opendp \<Rightarrow> opendp" where
  "brick_2_cell svc un c s =
     (if \<not> hold (cell_of s c) then
        (let (x_tar, y_tar) = brick_tar un c;
             dropped = rectDist_tar svc (cell_of s c) (region (cell_of s c)) x_tar y_tar;
             (valid, s1) = call_map_move_at svc c x_tar y_tar s
         in s1)
      else s)"

definition brick_placement_2 :: "service \<Rightarrow> uninit \<Rightarrow> Group \<Rightarrow> opendp \<Rightarrow> opendp" where
  "brick_placement_2 svc un g s =
     (let sort_by_dist = sort_by
            (\<lambda>cell1 cell2.
                 rectDist svc (dist_tar un cell1) (cell_of s cell1) (region (cell_of s cell1))
               < rectDist svc (dist_tar un cell2) (cell_of s cell2) (region (cell_of s cell2)))
            (siblings g)
      in fold (brick_2_cell svc un) sort_by_dist s)"

section \<open>Placement of one group, with rollback\<close>

definition erase_group :: "Group \<Rightarrow> opendp \<Rightarrow> opendp" where
  "erase_group g s = fold call_erase_pixel (siblings g) s"

definition brick_placement :: "service \<Rightarrow> uninit \<Rightarrow> Group \<Rightarrow> opendp \<Rightarrow> opendp" where
  "brick_placement svc un g s =
     (if util g > 0.95 then brick_placement_1 svc un g s else brick_placement_2 svc un g s)"

text \<open>
  The greedy part of the loop body of \<^verbatim>\<open>group_cell_placement\<close>: the result is
  \<^verbatim>\<open>multi_pass\<close>, \<^verbatim>\<open>single_pass\<close> and the state at the test
  \<^verbatim>\<open>if(!single_pass || !multi_pass)\<close>.
\<close>

definition group_greedy :: "service \<Rightarrow> Group \<Rightarrow> opendp \<Rightarrow> fault + (bool \<times> bool \<times> opendp)" where
  "group_greedy svc g s =
     (let cell_list = sorted_cell_list s
            (filter (\<lambda>c. \<not> isFixed svc (cell_of s c) \<and> \<not> is_placed (cell_of s c)) (siblings g))
      in case place_multi_deck svc cell_list True s of
           Inl e \<Rightarrow> Inl e
         | Inr (multi_pass, s1) \<Rightarrow>
             if multi_pass then
               (case place_single_deck svc cell_list True s1 of
                  Inl e \<Rightarrow> Inl e
                | Inr (single_pass, s2) \<Rightarrow> Inr (multi_pass, single_pass, s2))
             else Inr (multi_pass, True, s1))"

definition group_place :: "service \<Rightarrow> uninit \<Rightarrow> Group \<Rightarrow> opendp \<Rightarrow> fault + opendp" where
  "group_place svc un g s =
     (case group_greedy svc g s of
        Inl e \<Rightarrow> Inl e
      | Inr (multi_pass, single_pass, s1) \<Rightarrow>
          if \<not> single_pass \<or> \<not> multi_pass
          then Inr (brick_placement svc un g (erase_group g s1))
          else Inr s1)"

fun group_place_all :: "service \<Rightarrow> uninit \<Rightarrow> Group list \<Rightarrow> opendp \<Rightarrow> fault + opendp" where
  "group_place_all svc un [] s = Inr s"
| "group_place_all svc un (g # gs) s =
     (case group_place svc un g s of
        Inl e \<Rightarrow> Inl e
      | Inr s1 \<Rightarrow> group_place_all svc un gs s1)"

definition group_cell_placement :: "service \<Rightarrow> uninit \<Rightarrow> opendp \<Rightarrow> fault + opendp" where
  "group_cell_placement svc un s = group_place_all svc un (groups s) s"


section \<open>Refinement\<close>

text \<open>
  The counting loop of the two refiners: \<open>bound\<close> is \<^verbatim>\<open>sort_by_disp.size() * percent\<close>.
\<close>

function refine_loop ::
  "service \<Rightarrow> nat list \<Rightarrow> real \<Rightarrow> nat \<Rightarrow> int \<Rightarrow> opendp \<Rightarrow> fault + (int \<times> opendp)" where
  "refine_loop svc sort_by_disp bound i cnt s =
     (if real i < bound then
        if i < length sort_by_disp then
          (let c = sort_by_disp ! i in
           if \<not> hold (cell_of s c) then
             (let (ok, s1) = call_refine_move svc c s
              in refine_loop svc sort_by_disp bound (i + 1) (if ok then cnt + 1 else cnt) s1)
           else refine_loop svc sort_by_disp bound (i + 1) cnt s)
        else Inl IndexOutOfRange
      else Inr (cnt, s))"
  by pat_completeness auto
termination
  by (relation "measure (\<lambda>(svc, xs, bound, i, cnt, s). length xs - i)") auto

definition group_refine :: "service \<Rightarrow> Group \<Rightarrow> opendp \<Rightarrow> fault + (int \<times> opendp)" where
  "group_refine svc g s =
     (let sort_by_disp = sort_by
            (\<lambda>cell1 cell2. disp svc (cell_of s cell1) > disp svc (cell_of s cell1))
            (siblings g)
      in refine_loop svc sort_by_disp
           (real (length sort_by_disp) * group_refine_percent s) 0 0 s)"

definition non_group_refine :: "service \<Rightarrow> opendp \<Rightarrow> fault + (int \<times> opendp)" where
  "non_group_refine svc s =
     (let sort_by_disp = sort_by
            (\<lambda>cell1 cell2. disp svc (cell_of s cell1) > disp svc (cell_of s cell2))
            (filter (\<lambda>i. \<not> (isFixed svc (cell_of s i) \<or> hold (cell_of s i)
                              \<or> in_group (cell_of s i))) [0..<cells_n s])
      in refine_loop svc sort_by_disp
           (real (length sort_by_disp) * non_group_refine_percent s) 0 0 s)"

section \<open>Annealing\<close>

definition call_rand :: "service \<Rightarrow> opendp \<Rightarrow> nat \<times> opendp" where
  "call_rand svc s = (let (r, sd) = rand_next svc (seed s) in (r, s\<lparr>seed := sd\<rparr>))"

definition srand :: "nat \<Rightarrow> opendp \<Rightarrow> opendp" where
  "srand n s = s\<lparr>seed := n\<rparr>"

text \<open>
  The trial loop of the two annealers, by the number of trials left; \<open>pick k\<close> is the
  cell at position \<open>k\<close> of the population of size \<open>n\<close>.
\<close>

fun anneal_loop ::
  "service \<Rightarrow> (nat \<Rightarrow> nat) \<Rightarrow> nat \<Rightarrow> nat \<Rightarrow> int \<Rightarrow> opendp \<Rightarrow> int \<times> opendp" where
  "anneal_loop svc pick n 0 cnt s = (cnt, s)"
| "anneal_loop svc pick n (Suc trials) cnt s =
     (let (r1, s1) = call_rand svc s;
          cellA = pick (r1 mod n);
          (r2, s2) = call_rand svc s1;
          cellB = pick (r2 mod n)
      in if \<not> hold (cell_of s2 cellA) \<and> \<not> hold (cell_of s2 cellB) then
           (let (ok, s3) = call_swap_cell svc cellA cellB s2
            in anneal_loop svc pick n trials (if ok then cnt + 1 else cnt) s3)
         else anneal_loop svc pick n trials cnt s2)"

definition group_annealing :: "service \<Rightarrow> Group \<Rightarrow> opendp \<Rightarrow> int \<times> opendp" where
  "group_annealing svc g s =
     anneal_loop svc (\<lambda>k. siblings g ! k) (length (siblings g))
       (1000 * length (siblings g)) 0 (srand 777 s)"

definition non_group_annealing :: "service \<Rightarrow> opendp \<Rightarrow> int \<times> opendp" where
  "non_group_annealing svc s =
     anneal_loop svc (\<lambda>k. k) (cells_n s) (100 * cells_n s) 0 (srand 777 s)"

section \<open>The orchestrator\<close>

text \<open>
  The loop \<^verbatim>\<open>for(int j = 0; j < 3; j++)\<close> of \<^verbatim>\<open>simplePlacement\<close> for one group. Beside
  the state it returns the pair \<^verbatim>\<open>(count_a, count_b)\<close> of every round it ran, in order.
\<close>

function group_rounds ::
  "service \<Rightarrow> Group \<Rightarrow> nat \<Rightarrow> opendp \<Rightarrow> fault + ((int \<times> int) list \<times> opendp)" where
  "group_rounds svc g j s =
     (if j < 3 then
        (case group_refine svc g s of
           Inl e \<Rightarrow> Inl e
         | Inr (count_a, s1) \<Rightarrow>
             (let (count_b, s2) = group_annealing svc g s1
              in if count_a < 10 \<or> count_b < 100 then Inr ([(count_a, count_b)], s2)
                 else (case group_rounds svc g (j + 1) s2 of
                         Inl e \<Rightarrow> Inl e
                       | Inr (rs, s3) \<Rightarrow> Inr ((count_a, count_b) # rs, s3))))
      else Inr ([], s))"
  by pat_completeness auto
termination
  by (relation "measure (\<lambda>(svc, g, j, s). 3 - j)") auto

fun refine_anneal_groups :: "service \<Rightarrow> Group list \<Rightarrow> opendp \<Rightarrow> fault + opendp" where
  "refine_anneal_groups svc [] s = Inr s"
| "refine_anneal_groups svc (g # gs) s =
     (case group_rounds svc g 0 s of
        Inl e \<Rightarrow> Inl e
      | Inr (rs, s1) \<Rightarrow> refine_anneal_groups svc gs s1)"

definition call_group_cell_region_assign :: "service \<Rightarrow> opendp \<Rightarrow> opendp" where
  "call_group_cell_region_assign svc s =
     (let (gs, w) = group_cell_region_assign svc (groups s) (st s) in s\<lparr>groups := gs, st := w\<rparr>)"

definition call_non_group_cell_region_assign :: "service \<Rightarrow> opendp \<Rightarrow> opendp" where
  "call_non_group_cell_region_assign svc s =
     (let (gs, w) = non_group_cell_region_assign svc (groups s) (st s)
      in s\<lparr>groups := gs, st := w\<rparr>)"

definition simplePlacement :: "service \<Rightarrow> uninit \<Rightarrow> opendp \<Rightarrow> fault + opendp" where
  "simplePlacement svc un s =
     (let s1 = (if length (groups s) > 0 then call_group_cell_region_assign svc s else s);
          s2 = call_non_group_cell_region_assign svc s1;
          s3 = (if length (groups s2) > 0
                then non_group_cell_pre_placement svc (group_cell_pre_placement svc un s2)
                else s2)
      in if length (groups s3) > 0 then
           (case group_cell_placement svc un s3 of
              Inl e \<Rightarrow> Inl e
            | Inr s4 \<Rightarrow>
                (case refine_anneal_groups svc (groups s4) s4 of
                   Inl e \<Rightarrow> Inl e
                 | Inr s5 \<Rightarrow> Inr (non_group_cell_placement svc s5)))
         else Inr (non_group_cell_placement svc s3))"


section \<open>Reading the record of calls\<close>


fun map_move_at_cells :: "event list \<Rightarrow> nat list" where
  "map_move_at_cells [] = []"
| "map_move_at_cells (MapMoveAt c x y ok # es) = c # map_move_at_cells es"
| "map_move_at_cells (e # es) = map_move_at_cells es"

fun involves :: "nat \<Rightarrow> event \<Rightarrow> bool" where
  "involves h (MapMove c ok) = (c = h)"
| "involves h (MapMoveAt c x y ok) = (c = h)"
| "involves h (ShiftMove c) = (c = h)"
| "involves h (ErasePixel c) = (c = h)"
| "involves h (RefineMove c ok) = (c = h)"
| "involves h (SwapCell a b ok) = (a = h \<or> b = h)"




section \<open>A small grid service\<close>

text \<open>
  A grid service to run the model on: every cell covers one pixel, \<^verbatim>\<open>map_move\<close> commits
  a cell at the pixel asked for when that pixel is free, \<^verbatim>\<open>shift_move\<close> never succeeds,
  \<^verbatim>\<open>refine_move\<close> moves a placed cell onto its original target when that is free, and
  \<^verbatim>\<open>swap_cell\<close> exchanges two different placed cells. All instances have the same
  original target \<open>(tx, ty)\<close>.
\<close>

definition demo_place :: "nat \<Rightarrow> int \<Rightarrow> int \<Rightarrow> world \<Rightarrow> bool \<times> world" where
  "demo_place c x y w =
     (if grid w (x, y) = None
      then (True, w\<lparr>cell := (cell w)(c := (cell w c)\<lparr>is_placed := True, x_coord := x, y_coord := y\<rparr>),
                    grid := (grid w)((x, y) := Some c)\<rparr>)
      else (False, w))"

definition demo_refine :: "int \<Rightarrow> int \<Rightarrow> nat \<Rightarrow> world \<Rightarrow> bool \<times> world" where
  "demo_refine x y c w =
     (if is_placed (cell w c) \<and> grid w (x, y) = None
      then (True, w\<lparr>cell := (cell w)(c := (cell w c)\<lparr>x_coord := x, y_coord := y\<rparr>),
                    grid := (grid w)((x_coord (cell w c), y_coord (cell w c)) := None,
                                     (x, y) := Some c)\<rparr>)
      else (False, w))"

definition demo_swap :: "nat \<Rightarrow> nat \<Rightarrow> world \<Rightarrow> bool \<times> world" where
  "demo_swap a b w =
     (if a \<noteq> b \<and> is_placed (cell w a) \<and> is_placed (cell w b)
      then (True, w\<lparr>cell := (cell w)
                      (a := (cell w a)\<lparr>x_coord := x_coord (cell w b), y_coord := y_coord (cell w b)\<rparr>,
                       b := (cell w b)\<lparr>x_coord := x_coord (cell w a), y_coord := y_coord (cell w a)\<rparr>),
                    grid := (grid w)((x_coord (cell w a), y_coord (cell w a)) := Some b,
                                     (x_coord (cell w b), y_coord (cell w b)) := Some a)\<rparr>)
      else (False, w))"

definition demo_inside :: "Cell \<Rightarrow> adsRect \<Rightarrow> bool" where
  "demo_inside c r =
     (xMin r \<le> x_coord c \<and> x_coord c \<le> xMax r \<and> yMin r \<le> y_coord c \<and> y_coord c \<le> yMax r)"

definition demo_nearest :: "Cell \<Rightarrow> adsRect \<Rightarrow> int \<times> int" where
  "demo_nearest c r =
     (if \<bar>x_coord c - xMin r\<bar> \<le> \<bar>x_coord c - xMax r\<bar> then xMin r else xMax r,
      if \<bar>y_coord c - yMin r\<bar> \<le> \<bar>y_coord c - yMax r\<bar> then yMin r else yMax r)"

definition demo_service :: "int \<Rightarrow> int \<Rightarrow> service" where
  "demo_service tx ty =
     \<lparr>map_move = (\<lambda>c w. demo_place c tx ty w),
      map_move_at = demo_place,
      shift_move = (\<lambda>c w. (False, w)),
      swap_cell = demo_swap,
      refine_move = demo_refine tx ty,
      isFixed = (\<lambda>c. False),
      initLocation = (\<lambda>c. (tx, ty)),
      disp = (\<lambda>c. \<bar>x_coord c - tx\<bar> + \<bar>y_coord c - ty\<bar>),
      check_overlap = demo_inside,
      check_inside = demo_inside,
      dist_for_rect = (\<lambda>c r. \<bar>x_coord c - fst (demo_nearest c r)\<bar>
                            + \<bar>y_coord c - snd (demo_nearest c r)\<bar>),
      nearest_coord_to_rect_boundary = demo_nearest,
      group_cell_region_assign = Pair,
      non_group_cell_region_assign = Pair,
      rand_next = (\<lambda>n. ((n * 1103515245 + 12345) mod 2147483648,
                        (n * 1103515245 + 12345) mod 2147483648))\<rparr>"

definition demo_rect :: "int \<Rightarrow> int \<Rightarrow> int \<Rightarrow> int \<Rightarrow> adsRect" where
  "demo_rect x0 y0 x1 y1 = \<lparr>xMin = x0, yMin = y0, xMax = x1, yMax = y1\<rparr>"

definition demo_cell :: "nat \<Rightarrow> int \<Rightarrow> real \<Rightarrow> bool \<Rightarrow> bool \<Rightarrow> Cell" where
  "demo_cell n a d multi grouped =
     \<lparr>inst_id = n, area = a, dense_factor = d, isMulti = multi, in_group = grouped,
      region = demo_rect 0 0 10 10, is_placed = False, hold = False, x_coord = 0, y_coord = 0\<rparr>"

definition demo_state :: "nat \<Rightarrow> (nat \<Rightarrow> Cell) \<Rightarrow> Group list \<Rightarrow> opendp" where
  "demo_state n cs gs =
     \<lparr>cells_n = n, groups = gs, group_refine_percent = 0.5, non_group_refine_percent = 0.5,
      st = \<lparr>cell = cs, grid = (\<lambda>p. None)\<rparr>, seed = 1, calls = []\<rparr>"

definition demo_uninit :: "int \<Rightarrow> int \<Rightarrow> uninit" where
  "demo_uninit x y =
     \<lparr>brick_tar = (\<lambda>c. (x + int c, y)), dist_tar = (\<lambda>c. (x, y)),
      pre_target = (\<lambda>c. demo_rect x y x y)\<rparr>"



definition placed_at :: "Cell \<Rightarrow> int \<Rightarrow> int \<Rightarrow> Cell" where
  "placed_at c x y = c\<lparr>is_placed := True, x_coord := x, y_coord := y\<rparr>"

text \<open>
  Two siblings of one group; with one original target for both, the second one cannot be
  committed there.
\<close>

definition pair_cells :: "bool \<Rightarrow> nat \<Rightarrow> Cell" where
  "pair_cells multi k =
     (if k = 0 then demo_cell 1 10 1 multi True else demo_cell 2 5 1 multi True)"

definition pair_group :: "real \<Rightarrow> Group" where
  "pair_group u =
     \<lparr>siblings = [0, 1], regions = [demo_rect 0 0 10 10], boundary = demo_rect 0 0 10 10,
      util = u\<rparr>"

definition pair_state :: "bool \<Rightarrow> real \<Rightarrow> opendp" where
  "pair_state multi u = demo_state 2 (pair_cells multi) [pair_group u]"

text \<open>
  Two placed cells, cell 0 at \<open>(1, 0)\<close> and cell 1 at \<open>(5, 0)\<close>: one site and five sites
  away from the original target \<open>(0, 0)\<close>; \<open>grouped\<close> tells whether they belong to the group.
\<close>

definition moved_cells :: "bool \<Rightarrow> nat \<Rightarrow> Cell" where
  "moved_cells grouped k =
     (if k = 0 then placed_at (demo_cell 1 10 1 False grouped) 1 0
      else placed_at (demo_cell 2 5 1 False grouped) 5 0)"

definition moved_state :: "bool \<Rightarrow> opendp" where
  "moved_state grouped =
     (demo_state 2 (moved_cells grouped) [pair_group 0.5])
       \<lparr>st := \<lparr>cell = moved_cells grouped,
               grid = (\<lambda>p. if p = (1, 0) then Some 0 else if p = (5, 0) then Some 1 else None)\<rparr>\<rparr>"

text \<open>One multi-row sibling in a group of utilisation 0.96 bounded by \<open>(0, 0, 10, 10)\<close>.\<close>

definition corner_group :: Group where
  "corner_group =
     \<lparr>siblings = [0], regions = [demo_rect 0 0 10 10], boundary = demo_rect 0 0 10 10,
      util = 0.96\<rparr>"

definition corner_state :: opendp where
  "corner_state = demo_state 1 (\<lambda>k. demo_cell 1 10 1 True True) [corner_group]"

text \<open>
  An ungrouped, unplaced cell at \<open>(5, 5)\<close> that overlaps the region of a first group and
  the region of a second group.
\<close>

definition snap_groups :: "Group list" where
  "snap_groups =
     [\<lparr>siblings = [], regions = [demo_rect 0 0 20 20], boundary = demo_rect 0 0 20 20, util = 0.5\<rparr>,
      \<lparr>siblings = [], regions = [demo_rect 4 4 6 30], boundary = demo_rect 4 4 6 30, util = 0.5\<rparr>]"

definition snap_state :: opendp where
  "snap_state =
     demo_state 1 (\<lambda>k. (demo_cell 1 10 1 False False)\<lparr>x_coord := 5, y_coord := 5\<rparr>) snap_groups"

text \<open>
  A whole run: cell 0 is the only sibling of a group of utilisation 0.96, cell 1 is
  ungrouped and overlaps the group's region.
\<close>

definition run_cells :: "nat \<Rightarrow> Cell" where
  "run_cells k = (if k = 0 then demo_cell 1 10 1 True True else demo_cell 2 5 1 False False)"

definition run_state :: opendp where
  "run_state = demo_state 2 run_cells [corner_group]"

definition final_position :: "nat \<Rightarrow> fault + opendp \<Rightarrow> fault + int \<times> int" where
  "final_position c r = map_sum id (\<lambda>s. (x_coord (cell_of s c), y_coord (cell_of s c))) r"

section \<open>Notions used in the statements\<close>

text \<open>
  The regions, over all groups, that overlap a cell, in the order the loops of
  \<^verbatim>\<open>non_group_cell_pre_placement\<close> meet them.
\<close>

definition overlapping :: "service \<Rightarrow> Cell \<Rightarrow> Group list \<Rightarrow> adsRect list" where
  "overlapping svc c gs = filter (check_overlap svc c) (concat (map regions gs))"

fun is_map_move_at :: "event \<Rightarrow> bool" where
  "is_map_move_at (MapMoveAt c x y ok) = True"
| "is_map_move_at e = False"

text \<open>A cell is off the grid: not placed, and no pixel is occupied by it.\<close>

definition off_grid :: "nat \<Rightarrow> opendp \<Rightarrow> bool" where
  "off_grid c s = (\<not> is_placed (cell_of s c) \<and> (\<forall>p. grid (st s) p \<noteq> Some c))"

text \<open>Committing a cell at a position changes no \<open>hold\<close> flag.\<close>

definition keeps_hold :: "service \<Rightarrow> bool" where
  "keeps_hold svc =
     (\<forall>c x y w k. hold (cell (snd (map_move_at svc c x y w)) k) = hold (cell w k))"

definition same_place :: "Cell \<Rightarrow> Cell \<Rightarrow> bool" where
  "same_place c d = (hold d = hold c \<and> x_coord d = x_coord c \<and> y_coord d = y_coord c)"

text \<open>
  \<^verbatim>\<open>refine_move\<close> and \<^verbatim>\<open>swap_cell\<close> leave the \<open>hold\<close> flag and the position of every
  cell other than their arguments as they are.
\<close>

definition moves_only_args :: "service \<Rightarrow> bool" where
  "moves_only_args svc =
     ((\<forall>c w k. k \<noteq> c \<longrightarrow> same_place (cell w k) (cell (snd (refine_move svc c w)) k))
      \<and> (\<forall>a b w k. k \<noteq> a \<and> k \<noteq> b \<longrightarrow> same_place (cell w k) (cell (snd (swap_cell svc a b w)) k)))"

text \<open>
  From \<open>s\<close> to \<open>s'\<close> cell \<open>h\<close> keeps its \<open>hold\<close> flag and its position, and no call
  made in between has \<open>h\<close> among its arguments.
\<close>

definition frozen :: "nat \<Rightarrow> opendp \<Rightarrow> opendp \<Rightarrow> bool" where
  "frozen h s s' =
     (same_place (cell_of s h) (cell_of s' h)
      \<and> take (length (calls s)) (calls s') = calls s
      \<and> list_all (\<lambda>e. \<not> involves h e) (drop (length (calls s)) (calls s')))"

text \<open>
  One round of \<^verbatim>\<open>simplePlacement\<close>'s inner loop body up to its test, and \<open>n\<close> such
  rounds one after the other.
\<close>

definition one_round :: "service \<Rightarrow> Group \<Rightarrow> opendp \<Rightarrow> fault + ((int \<times> int) \<times> opendp)" where
  "one_round svc g s =
     (case group_refine svc g s of
        Inl e \<Rightarrow> Inl e
      | Inr (count_a, s1) \<Rightarrow>
          (let (count_b, s2) = group_annealing svc g s1 in Inr ((count_a, count_b), s2)))"

fun run_rounds ::
  "service \<Rightarrow> Group \<Rightarrow> nat \<Rightarrow> opendp \<Rightarrow> fault + ((int \<times> int) list \<times> opendp)" where
  "run_rounds svc g 0 s = Inr ([], s)"
| "run_rounds svc g (Suc n) s =
     (case one_round svc g s of
        Inl e \<Rightarrow> Inl e
      | Inr (ab, s1) \<Rightarrow>
          (case run_rounds svc g n s1 of
             Inl e \<Rightarrow> Inl e
           | Inr (rs, s2) \<Rightarrow> Inr (ab # rs, s2)))"

text \<open>The test \<^verbatim>\<open>count_a < 10 || count_b < 100\<close>.\<close>

definition trips :: "int \<times> int \<Rightarrow> bool" where
  "trips ab = (fst ab < 10 \<or> snd ab < 100)"

section \<open>Properties of the comparator and the greedy order\<close>

lemma mset_insert_by: "mset (insert_by lt x ys) = add_mset x (mset ys)"
  by (induction ys) auto

lemma mset_sort_by: "mset (sort_by lt xs) = mset xs"
  by (induction xs) (auto simp: mset_insert_by)



lemma calls_call_map_move:
  "calls (snd (call_map_move svc c s)) = calls s @ [MapMove c (fst (call_map_move svc c s))]"
  by (simp add: call_map_move_def split: prod.splits)

lemma calls_call_shift_move: "calls (call_shift_move svc c s) = calls s @ [ShiftMove c]"
  by (simp add: call_shift_move_def split: prod.splits)






















section \<open>Brick placement and rollback\<close>

lemma calls_fold_erase: "calls (fold call_erase_pixel cs s) = calls s @ map ErasePixel cs"
  by (induction cs arbitrary: s) (auto simp: call_erase_pixel_def)

lemma off_grid_erase_self: "off_grid c (call_erase_pixel c s)"
  by (simp add: off_grid_def call_erase_pixel_def erase_pixel_def)

lemma off_grid_erase_other: "off_grid c s \<Longrightarrow> off_grid c (call_erase_pixel d s)"
  by (simp add: off_grid_def call_erase_pixel_def erase_pixel_def)

lemma off_grid_fold_keep: "off_grid c s \<Longrightarrow> off_grid c (fold call_erase_pixel cs s)"
  by (induction cs arbitrary: s) (auto simp: off_grid_erase_other)

lemma off_grid_fold: "c \<in> set cs \<Longrightarrow> off_grid c (fold call_erase_pixel cs s)"
proof (induction cs arbitrary: s)
  case Nil
  then show ?case by simp
next
  case (Cons d cs)
  show ?case
  proof (cases "c = d")
    case True
    then show ?thesis using off_grid_fold_keep[OF off_grid_erase_self, of c cs s] by simp
  next
    case False
    with Cons show ?thesis by simp
  qed
qed


lemma calls_call_map_move_at:
  "calls (snd (call_map_move_at svc c x y s))
     = calls s @ [MapMoveAt c x y (fst (call_map_move_at svc c x y s))]"
  by (simp add: call_map_move_at_def split: prod.splits)

lemma map_move_at_cells_append:
  "map_move_at_cells (es @ fs) = map_move_at_cells es @ map_move_at_cells fs"
  by (induction es rule: map_move_at_cells.induct) auto

lemma brick_1_cell_calls:
  "\<exists>x y ok. calls (brick_1_cell svc un g c s) = calls s @ [MapMoveAt c x y ok]"
  by (simp add: brick_1_cell_def call_map_move_at_def Let_def split: prod.splits)

lemma fold_brick_1_calls:
  "\<exists>es. calls (fold (brick_1_cell svc un g) cs s) = calls s @ es
        \<and> list_all is_map_move_at es \<and> map_move_at_cells es = cs"
proof (induction cs arbitrary: s)
  case Nil
  then show ?case by simp
next
  case (Cons c cs)
  obtain x y ok where a: "calls (brick_1_cell svc un g c s) = calls s @ [MapMoveAt c x y ok]"
    using brick_1_cell_calls by blast
  from Cons[of "brick_1_cell svc un g c s"] obtain es where
    b: "calls (fold (brick_1_cell svc un g) cs (brick_1_cell svc un g c s))
          = calls (brick_1_cell svc un g c s) @ es"
       "list_all is_map_move_at es" "map_move_at_cells es = cs" by blast
  show ?case
    by (rule exI[of _ "MapMoveAt c x y ok # es"]) (use a b in simp)
qed

lemma brick_2_cell_held: "hold (cell_of s c) \<Longrightarrow> brick_2_cell svc un c s = s"
  by (simp add: brick_2_cell_def)

lemma brick_2_cell_calls:
  "\<not> hold (cell_of s c) \<Longrightarrow>
     \<exists>x y ok. calls (brick_2_cell svc un c s) = calls s @ [MapMoveAt c x y ok]"
  by (simp add: brick_2_cell_def call_map_move_at_def Let_def split: prod.splits)

lemma brick_2_cell_hold:
  "keeps_hold svc \<Longrightarrow> hold (cell_of (brick_2_cell svc un c s) k) = hold (cell_of s k)"
  unfolding keeps_hold_def brick_2_cell_def call_map_move_at_def
  by (auto simp: Let_def split: prod.splits) (metis snd_conv)+

lemma fold_brick_2_calls:
  "keeps_hold svc \<Longrightarrow>
     \<exists>es. calls (fold (brick_2_cell svc un) cs s) = calls s @ es
        \<and> list_all is_map_move_at es
        \<and> map_move_at_cells es = filter (\<lambda>c. \<not> hold (cell_of s c)) cs"
proof (induction cs arbitrary: s)
  case Nil
  then show ?case by simp
next
  case (Cons c cs)
  let ?s1 = "brick_2_cell svc un c s"
  have h: "\<And>k. hold (cell_of ?s1 k) = hold (cell_of s k)"
    using brick_2_cell_hold[OF Cons.prems] by simp
  from Cons.IH[OF Cons.prems, of ?s1] obtain es where
    b: "calls (fold (brick_2_cell svc un) cs ?s1) = calls ?s1 @ es"
       "list_all is_map_move_at es"
       "map_move_at_cells es = filter (\<lambda>c. \<not> hold (cell_of ?s1 c)) cs" by blast
  show ?case
  proof (cases "hold (cell_of s c)")
    case True
    then have "?s1 = s" by (rule brick_2_cell_held)
    with b True show ?thesis by auto
  next
    case False
    then obtain x y ok where a: "calls ?s1 = calls s @ [MapMoveAt c x y ok]"
      using brick_2_cell_calls by blast
    show ?thesis
      by (rule exI[of _ "MapMoveAt c x y ok # es"]) (use a b h False in simp)
  qed
qed

text \<open>
  Claim C10. \<open>brick_placement_1\<close> attempts a commit (\<^verbatim>\<open>map_move\<close> at a position) for
  every sibling of the group, once each, whatever its \<open>hold\<close> flag; \<open>brick_placement_2\<close>
  attempts one only for the siblings whose \<open>hold\<close> flag is false (given that committing a
  cell changes no \<open>hold\<close> flag, the flag on entry is the flag at the moment of the test).
\<close>

theorem brick_hold_exemption:
  "(\<exists>es. calls (brick_placement_1 svc un g s) = calls s @ es
         \<and> list_all is_map_move_at es
         \<and> mset (map_move_at_cells es) = mset (siblings g))
   \<and> (keeps_hold svc \<longrightarrow>
        (\<exists>es. calls (brick_placement_2 svc un g s) = calls s @ es
           \<and> list_all is_map_move_at es
           \<and> mset (map_move_at_cells es)
               = mset (filter (\<lambda>c. \<not> hold (cell_of s c)) (siblings g))))"
proof (intro conjI impI)
  define L where "L = sort_by
            (\<lambda>cell1 cell2. rectDist svc (dist_tar un cell1) (cell_of s cell1) (boundary g)
                          < rectDist svc (dist_tar un cell2) (cell_of s cell2) (boundary g))
            (siblings g)"
  have d: "brick_placement_1 svc un g s = fold (brick_1_cell svc un g) L s"
    unfolding brick_placement_1_def Let_def L_def ..
  have m: "mset L = mset (siblings g)" unfolding L_def by (rule mset_sort_by)
  from fold_brick_1_calls[of svc un g L s] obtain es where
    "calls (fold (brick_1_cell svc un g) L s) = calls s @ es" "list_all is_map_move_at es"
    "map_move_at_cells es = L" by blast
  with d m show "\<exists>es. calls (brick_placement_1 svc un g s) = calls s @ es
         \<and> list_all is_map_move_at es
         \<and> mset (map_move_at_cells es) = mset (siblings g)"
    by auto
next
  assume k: "keeps_hold svc"
  define L where "L = sort_by
            (\<lambda>cell1 cell2.
                 rectDist svc (dist_tar un cell1) (cell_of s cell1) (region (cell_of s cell1))
               < rectDist svc (dist_tar un cell2) (cell_of s cell2) (region (cell_of s cell2)))
            (siblings g)"
  have d: "brick_placement_2 svc un g s = fold (brick_2_cell svc un) L s"
    unfolding brick_placement_2_def Let_def L_def ..
  have m: "mset (filter (\<lambda>c. \<not> hold (cell_of s c)) L)
             = mset (filter (\<lambda>c. \<not> hold (cell_of s c)) (siblings g))"
    unfolding L_def by (simp add: mset_sort_by)
  from fold_brick_2_calls[OF k, of un L s] obtain es where
    "calls (fold (brick_2_cell svc un) L s) = calls s @ es" "list_all is_map_move_at es"
    "map_move_at_cells es = filter (\<lambda>c. \<not> hold (cell_of s c)) L" by blast
  with d m show "\<exists>es. calls (brick_placement_2 svc un g s) = calls s @ es
           \<and> list_all is_map_move_at es
           \<and> mset (map_move_at_cells es)
               = mset (filter (\<lambda>c. \<not> hold (cell_of s c)) (siblings g))"
    by auto
qed


lemma brick_placement_calls:
  "\<exists>es. calls (brick_placement svc un g s) = calls s @ es \<and> list_all is_map_move_at es"
proof (cases "util g > 0.95")
  case True
  have "\<exists>es. calls (fold (brick_1_cell svc un g) cs s) = calls s @ es \<and> list_all is_map_move_at es" for cs
    using fold_brick_1_calls[of svc un g cs s] by blast
  with True show ?thesis
    unfolding brick_placement_def brick_placement_1_def Let_def by simp
next
  case False
  have "\<exists>es. calls (fold (brick_2_cell svc un) cs s) = calls s @ es \<and> list_all is_map_move_at es" for cs
  proof (induction cs arbitrary: s)
    case Nil
    then show ?case by simp
  next
    case (Cons c cs)
    have "\<exists>es. calls (brick_2_cell svc un c s) = calls s @ es \<and> list_all is_map_move_at es"
      using brick_2_cell_held[of s c svc un] brick_2_cell_calls[of s c svc un]
      by (cases "hold (cell_of s c)") auto
    then obtain es where a: "calls (brick_2_cell svc un c s) = calls s @ es" "list_all is_map_move_at es"
      by blast
    from Cons[of "brick_2_cell svc un c s"] obtain fs where
      b: "calls (fold (brick_2_cell svc un) cs (brick_2_cell svc un c s))
            = calls (brick_2_cell svc un c s) @ fs" "list_all is_map_move_at fs" by blast
    show ?case by (rule exI[of _ "es @ fs"]) (use a b in simp)
  qed
  with False show ?thesis
    unfolding brick_placement_def brick_placement_2_def Let_def by simp
qed

text \<open>
  Claim C1. When the greedy pass of a group fails (\<^verbatim>\<open>multi_pass\<close> or \<^verbatim>\<open>single_pass\<close> is
  false), \<open>group_place\<close> erases every sibling of the group and only then runs the brick
  placer: in the state the brick placer starts from, every sibling is unplaced and owns no
  pixel, the calls made since the greedy pass are one \<^verbatim>\<open>erase_pixel\<close> per sibling, and the
  brick placer's own calls all come after them.
\<close>

theorem group_rollback_atomicity:
  assumes "group_greedy svc g s = Inr (multi_pass, single_pass, s1)"
    and "\<not> single_pass \<or> \<not> multi_pass"
  shows "group_place svc un g s = Inr (brick_placement svc un g (erase_group g s1))
       \<and> (\<forall>c\<in>set (siblings g). off_grid c (erase_group g s1))
       \<and> calls (erase_group g s1) = calls s1 @ map ErasePixel (siblings g)
       \<and> (\<exists>es. calls (brick_placement svc un g (erase_group g s1))
                  = calls s1 @ map ErasePixel (siblings g) @ es
               \<and> list_all is_map_move_at es)"
proof -
  have a: "group_place svc un g s = Inr (brick_placement svc un g (erase_group g s1))"
    using assms by (auto simp: group_place_def)
  have b: "\<forall>c\<in>set (siblings g). off_grid c (erase_group g s1)"
    by (simp add: erase_group_def off_grid_fold)
  have c: "calls (erase_group g s1) = calls s1 @ map ErasePixel (siblings g)"
    by (simp add: erase_group_def calls_fold_erase)
  from brick_placement_calls[of svc un g "erase_group g s1"] c
  have d: "\<exists>es. calls (brick_placement svc un g (erase_group g s1))
                  = calls s1 @ map ErasePixel (siblings g) @ es
               \<and> list_all is_map_move_at es" by auto
  from a b c d show ?thesis by blast
qed

section \<open>The greedy pass of a group\<close>

lemma place_multi_deck_calls:
  "place_multi_deck svc cs True s = Inr (mp, s1) \<Longrightarrow>
     \<exists>oks. if mp then calls s1 = calls s @ map (\<lambda>c. MapMove c True) oks
           else (\<exists>c. calls s1 = calls s @ map (\<lambda>c. MapMove c True) oks @ [MapMove c False])"
proof (induction cs arbitrary: s)
  case Nil
  then show ?case by (auto intro: exI[of _ "[]"])
next
  case (Cons c cs)
  show ?case
  proof (cases "\<not> isFixed svc (cell_of s c) \<and> \<not> is_placed (cell_of s c) \<and> isMulti (cell_of s c)")
    case False
    with Cons.prems have "place_multi_deck svc cs True s = Inr (mp, s1)"
      by (auto split: if_splits)
    from Cons.IH[OF this] show ?thesis .
  next
    case True
    with Cons.prems have ig: "in_group (cell_of s c)" by (auto split: if_splits)
    obtain ok s2 where m: "call_map_move svc c s = (ok, s2)" by (cases "call_map_move svc c s")
    have cs2: "calls s2 = calls s @ [MapMove c ok]"
      using m by (auto simp: call_map_move_def split: prod.splits)
    show ?thesis
    proof (cases ok)
      case False
      with Cons.prems True ig m have "mp = False" "s1 = s2" by auto
      with cs2 False show ?thesis by (auto intro: exI[of _ "[]"])
    next
      case ok: True
      with Cons.prems True ig m have "place_multi_deck svc cs True s2 = Inr (mp, s1)" by auto
      from Cons.IH[OF this] obtain oks where
        r: "if mp then calls s1 = calls s2 @ map (\<lambda>c. MapMove c True) oks
           else (\<exists>c. calls s1 = calls s2 @ map (\<lambda>c. MapMove c True) oks @ [MapMove c False])"
        by blast
      show ?thesis
        by (rule exI[of _ "c # oks"]) (use r cs2 ok in \<open>auto split: if_splits\<close>)
    qed
  qed
qed

lemma place_single_deck_calls:
  "place_single_deck svc cs True s = Inr (sp, s1) \<Longrightarrow>
     \<exists>oks. if sp then calls s1 = calls s @ map (\<lambda>c. MapMove c True) oks
           else (\<exists>c. calls s1 = calls s @ map (\<lambda>c. MapMove c True) oks @ [MapMove c False])"
proof (induction cs arbitrary: s)
  case Nil
  then show ?case by (auto intro: exI[of _ "[]"])
next
  case (Cons c cs)
  show ?case
  proof (cases "\<not> isFixed svc (cell_of s c) \<and> \<not> is_placed (cell_of s c) \<and> \<not> isMulti (cell_of s c)")
    case False
    with Cons.prems have "place_single_deck svc cs True s = Inr (sp, s1)"
      by (auto split: if_splits)
    from Cons.IH[OF this] show ?thesis .
  next
    case True
    with Cons.prems have ig: "in_group (cell_of s c)" by (auto split: if_splits)
    obtain ok s2 where m: "call_map_move svc c s = (ok, s2)" by (cases "call_map_move svc c s")
    have cs2: "calls s2 = calls s @ [MapMove c ok]"
      using m by (auto simp: call_map_move_def split: prod.splits)
    show ?thesis
    proof (cases ok)
      case False
      with Cons.prems True ig m have "sp = False" "s1 = s2" by auto
      with cs2 False show ?thesis by (auto intro: exI[of _ "[]"])
    next
      case ok: True
      with Cons.prems True ig m have "place_single_deck svc cs True s2 = Inr (sp, s1)" by auto
      from Cons.IH[OF this] obtain oks where
        r: "if sp then calls s1 = calls s2 @ map (\<lambda>c. MapMove c True) oks
           else (\<exists>c. calls s1 = calls s2 @ map (\<lambda>c. MapMove c True) oks @ [MapMove c False])"
        by blast
      show ?thesis
        by (rule exI[of _ "c # oks"]) (use r cs2 ok in \<open>auto split: if_splits\<close>)
    qed
  qed
qed

text \<open>
  Claim C4, as amended. The greedy pass of a group calls nothing but \<^verbatim>\<open>map_move\<close>: it
  never calls \<^verbatim>\<open>shift_move\<close>. Every call but the last succeeded, and the pass fails
  exactly when its last call failed: the first sibling whose direct placement fails ends
  the pass at once.
\<close>

theorem group_greedy_direct_only:
  assumes "group_greedy svc g s = Inr (multi_pass, single_pass, s1)"
  shows "\<exists>oks. if multi_pass \<and> single_pass
                then calls s1 = calls s @ map (\<lambda>c. MapMove c True) oks
                else (\<exists>c. calls s1 = calls s @ map (\<lambda>c. MapMove c True) oks @ [MapMove c False])"
proof -
  let ?L = "sorted_cell_list s
            (filter (\<lambda>c. \<not> isFixed svc (cell_of s c) \<and> \<not> is_placed (cell_of s c)) (siblings g))"
  from assms obtain mp sm where m: "place_multi_deck svc ?L True s = Inr (mp, sm)"
    by (auto simp: group_greedy_def Let_def split: sum.splits)
  from place_multi_deck_calls[OF m] obtain oks where
    a: "if mp then calls sm = calls s @ map (\<lambda>c. MapMove c True) oks
        else (\<exists>c. calls sm = calls s @ map (\<lambda>c. MapMove c True) oks @ [MapMove c False])"
    by blast
  show ?thesis
  proof (cases mp)
    case False
    with assms m have "multi_pass = False" "s1 = sm"
      by (auto simp: group_greedy_def Let_def)
    with a False show ?thesis by auto
  next
    case True
    with assms m have sd: "place_single_deck svc ?L True sm = Inr (single_pass, s1)"
      and mt: "multi_pass"
      by (auto simp: group_greedy_def Let_def split: sum.splits)
    from place_single_deck_calls[OF sd] obtain oks2 where
      b: "if single_pass then calls s1 = calls sm @ map (\<lambda>c. MapMove c True) oks2
          else (\<exists>c. calls s1 = calls sm @ map (\<lambda>c. MapMove c True) oks2 @ [MapMove c False])"
      by blast
    show ?thesis
      by (rule exI[of _ "oks @ oks2"]) (use a b True mt in \<open>auto split: if_splits\<close>)
  qed
qed


section \<open>The rounds of refinement and annealing\<close>

lemma group_rounds_from:
  "group_rounds svc g j s = Inr (rs, s') \<Longrightarrow>
     run_rounds svc g (length rs) s = Inr (rs, s')
     \<and> length rs \<le> 3 - j \<and> (j < 3 \<longrightarrow> rs \<noteq> [])
     \<and> (\<forall>k. Suc k < length rs \<longrightarrow> \<not> trips (rs ! k))
     \<and> (length rs < 3 - j \<longrightarrow> trips (last rs))"
proof (induction svc g j s arbitrary: rs s' rule: group_rounds.induct)
  case (1 svc g j s)
  show ?case
  proof (cases "j < 3")
    case False
    with "1.prems" show ?thesis by simp
  next
    case j: True
    show ?thesis
    proof (cases "group_refine svc g s")
      case (Inl e)
      with "1.prems" j show ?thesis by simp
    next
      case (Inr r)
      obtain a s1 where r: "r = (a, s1)" by (cases r)
      obtain b s2 where an: "group_annealing svc g s1 = (b, s2)"
        by (cases "group_annealing svc g s1")
      have one: "one_round svc g s = Inr ((a, b), s2)"
        by (simp add: one_round_def Inr r an)
      show ?thesis
      proof (cases "a < 10 \<or> b < 100")
        case True
        with "1.prems" j Inr r an have "rs = [(a, b)]" "s' = s2" by auto
        with one True j show ?thesis by (simp add: trips_def)
      next
        case False
        with "1.prems" j Inr r an obtain rs1 where
          rec: "group_rounds svc g (j + 1) s2 = Inr (rs1, s')" and rs: "rs = (a, b) # rs1"
          by (auto split: sum.splits)
        have IH: "run_rounds svc g (length rs1) s2 = Inr (rs1, s')
            \<and> length rs1 \<le> 3 - (j + 1) \<and> (j + 1 < 3 \<longrightarrow> rs1 \<noteq> [])
            \<and> (\<forall>k. Suc k < length rs1 \<longrightarrow> \<not> trips (rs1 ! k))
            \<and> (length rs1 < 3 - (j + 1) \<longrightarrow> trips (last rs1))"
          using "1.IH"[OF j Inr r[symmetric] refl an[symmetric] False rec] .
        have nt: "\<not> trips (a, b)" using False by (simp add: trips_def)
        have "\<forall>k. Suc k < length rs \<longrightarrow> \<not> trips (rs ! k)"
        proof (intro allI impI)
          fix k assume "Suc k < length rs"
          then show "\<not> trips (rs ! k)" using IH nt rs by (cases k) auto
        qed
        moreover have "run_rounds svc g (length rs) s = Inr (rs, s')"
          using IH one rs by simp
        moreover have "length rs \<le> 3 - j" using IH j rs by auto
        moreover have "length rs < 3 - j \<longrightarrow> trips (last rs)"
          using IH j rs by auto
        ultimately show ?thesis using rs by simp
      qed
    qed
  qed
qed

text \<open>
  Claim C8. For one group the orchestrator's loop runs at least one and at most three
  rounds; each round is a whole \<open>one_round\<close>, the refinement and then the annealing; no
  round before the last has \<^verbatim>\<open>count_a < 10\<close> or \<^verbatim>\<open>count_b < 100\<close>, so a round that trips
  the test is the last one; and when fewer than three rounds ran, the last one tripped it.
\<close>

theorem round_cutoff:
  "group_rounds svc g 0 s = Inr (rs, s') \<Longrightarrow>
     1 \<le> length rs \<and> length rs \<le> 3
     \<and> run_rounds svc g (length rs) s = Inr (rs, s')
     \<and> (\<forall>k. Suc k < length rs \<longrightarrow> \<not> trips (rs ! k))
     \<and> (length rs < 3 \<longrightarrow> trips (last rs))"
  using group_rounds_from[of svc g 0 s rs s'] by (cases rs) auto

section \<open>Held cells under refinement and annealing\<close>

lemma frozen_refl: "frozen h s s"
  by (simp add: frozen_def same_place_def)

lemma frozenI:
  "same_place (cell_of s h) (cell_of s' h) \<Longrightarrow> calls s' = calls s @ es \<Longrightarrow>
     list_all (\<lambda>e. \<not> involves h e) es \<Longrightarrow> frozen h s s'"
  by (simp add: frozen_def)

lemma frozenD:
  assumes "frozen h s s'"
  shows "same_place (cell_of s h) (cell_of s' h)"
    and "\<exists>es. calls s' = calls s @ es \<and> list_all (\<lambda>e. \<not> involves h e) es"
proof -
  show "same_place (cell_of s h) (cell_of s' h)" using assms by (simp add: frozen_def)
  have "take (length (calls s)) (calls s') = calls s"
    using assms by (simp add: frozen_def)
  then have "calls s' = calls s @ drop (length (calls s)) (calls s')"
    by (metis append_take_drop_id)
  then show "\<exists>es. calls s' = calls s @ es \<and> list_all (\<lambda>e. \<not> involves h e) es"
    using assms unfolding frozen_def by blast
qed

lemma frozen_trans:
  assumes "frozen h s s1" "frozen h s1 s2"
  shows "frozen h s s2"
proof -
  from frozenD[OF assms(1)] obtain es where
    a: "same_place (cell_of s h) (cell_of s1 h)" "calls s1 = calls s @ es"
       "list_all (\<lambda>e. \<not> involves h e) es"
    by blast
  from frozenD[OF assms(2)] obtain fs where
    b: "same_place (cell_of s1 h) (cell_of s2 h)" "calls s2 = calls s1 @ fs"
       "list_all (\<lambda>e. \<not> involves h e) fs"
    by blast
  show ?thesis
  proof (rule frozenI)
    show "same_place (cell_of s h) (cell_of s2 h)" using a(1) b(1) by (simp add: same_place_def)
    show "calls s2 = calls s @ (es @ fs)" using a(2) b(2) by simp
    show "list_all (\<lambda>e. \<not> involves h e) (es @ fs)" using a(3) b(3) by simp
  qed
qed

lemma frozen_hold: "frozen h s s' \<Longrightarrow> hold (cell_of s h) \<Longrightarrow> hold (cell_of s' h)"
  by (simp add: frozen_def same_place_def)

lemma frozen_refine_step:
  assumes "moves_only_args svc" "hold (cell_of s h)" "\<not> hold (cell_of s c)"
  shows "frozen h s (snd (call_refine_move svc c s))"
proof -
  have ne: "h \<noteq> c" using assms by auto
  obtain ok w where r: "refine_move svc c (st s) = (ok, w)" by (cases "refine_move svc c (st s)")
  have "same_place (cell (st s) h) (cell (snd (refine_move svc c (st s))) h)"
    using assms(1) ne unfolding moves_only_args_def by blast
  then have "same_place (cell_of s h) (cell w h)" using r by simp
  then show ?thesis
    using ne by (intro frozenI[where es = "[RefineMove c ok]"]) (simp_all add: call_refine_move_def r)
qed

lemma frozen_swap_step:
  assumes "moves_only_args svc" "hold (cell_of s h)" "\<not> hold (cell_of s a)" "\<not> hold (cell_of s b)"
  shows "frozen h s (snd (call_swap_cell svc a b s))"
proof -
  have ne: "h \<noteq> a \<and> h \<noteq> b" using assms by auto
  obtain ok w where r: "swap_cell svc a b (st s) = (ok, w)" by (cases "swap_cell svc a b (st s)")
  have "same_place (cell (st s) h) (cell (snd (swap_cell svc a b (st s))) h)"
    using assms(1) ne unfolding moves_only_args_def by blast
  then have "same_place (cell_of s h) (cell w h)" using r by simp
  then show ?thesis
    using ne by (intro frozenI[where es = "[SwapCell a b ok]"]) (simp_all add: call_swap_cell_def r)
qed

lemma frozen_rand: "frozen h s (snd (call_rand svc s))"
  by (simp add: call_rand_def frozen_def same_place_def split: prod.splits)

lemma frozen_srand: "frozen h s (srand n s)"
  by (simp add: srand_def frozen_def same_place_def)

lemma refine_loop_frozen:
  "moves_only_args svc \<Longrightarrow> hold (cell_of s h) \<Longrightarrow>
     refine_loop svc xs bound i cnt s = Inr (n, s') \<Longrightarrow> frozen h s s'"
proof (induction svc xs bound i cnt s rule: refine_loop.induct)
  case (1 svc xs bound i cnt s)
  show ?case
  proof (cases "real i < bound \<and> i < length xs")
    case False
    with "1.prems"(3) show ?thesis by (auto simp: frozen_refl split: if_splits)
  next
    case True
    then have t1: "real i < bound" and t2: "i < length xs" by simp_all
    show ?thesis
    proof (cases "hold (cell_of s (xs ! i))")
      case True
      with "1.prems" t1 t2 have "refine_loop svc xs bound (i + 1) cnt s = Inr (n, s')" by simp
      from "1.IH"(2)[OF t1 t2 refl _ "1.prems"(1,2) this] True show ?thesis by simp
    next
      case False
      obtain ok s1 where c: "call_refine_move svc (xs ! i) s = (ok, s1)"
        by (cases "call_refine_move svc (xs ! i) s")
      have f1: "frozen h s s1"
        using frozen_refine_step[OF "1.prems"(1,2) False] c by simp
      have h1: "hold (cell_of s1 h)" using frozen_hold[OF f1 "1.prems"(2)] .
      have "refine_loop svc xs bound (i + 1) (if ok then cnt + 1 else cnt) s1 = Inr (n, s')"
        using "1.prems"(3) t1 t2 False c by simp
      from "1.IH"(1)[OF t1 t2 refl False refl c[symmetric] "1.prems"(1) h1 this]
      have "frozen h s1 s'" .
      with f1 show ?thesis by (rule frozen_trans)
    qed
  qed
qed

lemma anneal_loop_frozen:
  "moves_only_args svc \<Longrightarrow> hold (cell_of s h) \<Longrightarrow>
     frozen h s (snd (anneal_loop svc pick n trials cnt s))"
proof (induction trials arbitrary: cnt s)
  case 0
  then show ?case by (simp add: frozen_refl)
next
  case (Suc trials)
  obtain r1 s1 where a: "call_rand svc s = (r1, s1)" by (cases "call_rand svc s")
  obtain r2 s2 where b: "call_rand svc s1 = (r2, s2)" by (cases "call_rand svc s1")
  have f1: "frozen h s s1" using frozen_rand[of h s svc] a by simp
  have f2: "frozen h s1 s2" using frozen_rand[of h s1 svc] b by simp
  have f12: "frozen h s s2" using f1 f2 by (rule frozen_trans)
  have h2: "hold (cell_of s2 h)" using frozen_hold[OF f12 Suc.prems(2)] .
  let ?A = "pick (r1 mod n)" and ?B = "pick (r2 mod n)"
  show ?case
  proof (cases "\<not> hold (cell_of s2 ?A) \<and> \<not> hold (cell_of s2 ?B)")
    case False
    then have "anneal_loop svc pick n (Suc trials) cnt s = anneal_loop svc pick n trials cnt s2"
      using a b by auto
    with Suc.IH[OF Suc.prems(1) h2, of cnt] f12 show ?thesis by (auto intro: frozen_trans)
  next
    case True
    obtain ok s3 where c: "call_swap_cell svc ?A ?B s2 = (ok, s3)"
      by (cases "call_swap_cell svc ?A ?B s2")
    have f3: "frozen h s2 s3" using frozen_swap_step[OF Suc.prems(1) h2, of ?A ?B] True c by simp
    have h3: "hold (cell_of s3 h)" using frozen_hold[OF f3 h2] .
    have "anneal_loop svc pick n (Suc trials) cnt s
            = anneal_loop svc pick n trials (if ok then cnt + 1 else cnt) s3"
      using a b c True by simp
    with Suc.IH[OF Suc.prems(1) h3, of "if ok then cnt + 1 else cnt"] f12 f3 show ?thesis
      by (auto intro: frozen_trans)
  qed
qed

text \<open>
  Claim C9. Given that \<^verbatim>\<open>refine_move\<close> and \<^verbatim>\<open>swap_cell\<close> change the \<open>hold\<close> flag and the
  position of their argument cells only, a cell \<open>h\<close> that is held when a refiner or an
  annealer is called (for a group or for the ungrouped cells) is held and at the same
  position when the call returns, and none of the calls to \<^verbatim>\<open>refine_move\<close> and
  \<^verbatim>\<open>swap_cell\<close> made meanwhile has \<open>h\<close> as an argument.
\<close>

theorem hold_freeze:
  assumes "moves_only_args svc" and "hold (cell_of s h)"
  shows "(\<forall>n s'. group_refine svc g s = Inr (n, s') \<longrightarrow> frozen h s s')
       \<and> (\<forall>n s'. non_group_refine svc s = Inr (n, s') \<longrightarrow> frozen h s s')
       \<and> frozen h s (snd (group_annealing svc g s))
       \<and> frozen h s (snd (non_group_annealing svc s))"
proof -
  have hs: "hold (cell_of (srand 777 s) h)" using assms(2) by (simp add: srand_def)
  have "frozen h s (snd (group_annealing svc g s))"
    unfolding group_annealing_def
    using frozen_trans[OF frozen_srand anneal_loop_frozen[OF assms(1) hs]] .
  moreover have "frozen h s (snd (non_group_annealing svc s))"
    unfolding non_group_annealing_def
    using frozen_trans[OF frozen_srand anneal_loop_frozen[OF assms(1) hs]]
    by (simp add: srand_def)
  moreover have "\<forall>n s'. group_refine svc g s = Inr (n, s') \<longrightarrow> frozen h s s'"
    unfolding group_refine_def Let_def using refine_loop_frozen[OF assms] by blast
  moreover have "\<forall>n s'. non_group_refine svc s = Inr (n, s') \<longrightarrow> frozen h s s'"
    unfolding non_group_refine_def Let_def using refine_loop_frozen[OF assms] by blast
  ultimately show ?thesis by blast
qed


section \<open>The model on the small grid service\<close>

lemmas demo_defs =
  demo_service_def demo_place_def demo_refine_def demo_swap_def demo_inside_def
  demo_nearest_def demo_rect_def demo_cell_def demo_state_def demo_uninit_def placed_at_def

lemmas call_defs =
  call_map_move_def call_map_move_at_def call_shift_move_def call_swap_cell_def
  call_refine_move_def call_erase_pixel_def erase_pixel_def set_hold_def

lemmas pair_defs = pair_group_def pair_state_def pair_cells_def

lemma demo_keeps_hold: "keeps_hold (demo_service tx ty)"
  by (simp add: keeps_hold_def demo_service_def demo_place_def)

lemma demo_moves_only_args: "moves_only_args (demo_service tx ty)"
  by (simp add: moves_only_args_def demo_service_def demo_refine_def demo_swap_def
      same_place_def Let_def split: prod.splits)

text \<open>
  Two multi-row siblings with the same target: the direct placement of the second fails,
  the group is erased and handed to the brick placer, and \<^verbatim>\<open>shift_move\<close> is never called.
\<close>

theorem group_greedy_shift_counterexample:
  "map_sum id calls (group_place (demo_service 0 0) (demo_uninit 3 4)
       (pair_group 0.5) (pair_state True 0.5))
     = Inr [MapMove 0 True, MapMove 1 False, ErasePixel 0, ErasePixel 1,
            MapMoveAt 0 3 4 True, MapMoveAt 1 4 4 True]"
  by (simp add: group_place_def group_greedy_def sorted_cell_list_def sortUpOrder_def
      pair_defs erase_group_def brick_placement_def
      brick_placement_2_def brick_2_cell_def rectDist_def rectDist_tar_def cdiv_def
      demo_defs call_defs Let_def)

lemma pair_greedy:
  "group_greedy (demo_service 0 0) (pair_group 0.5) (pair_state True 0.5)
     = Inr (False, True,
         snd (snd (projr (group_greedy (demo_service 0 0) (pair_group 0.5)
                      (pair_state True 0.5)))))"
  by (simp add: group_greedy_def sorted_cell_list_def sortUpOrder_def pair_defs
      demo_defs call_defs Let_def)

theorem group_greedy_direct_only_witness:
  "group_greedy (demo_service 0 0) (pair_group 0.5) (pair_state True 0.5)
     = Inr (False, True,
         snd (snd (projr (group_greedy (demo_service 0 0) (pair_group 0.5)
                      (pair_state True 0.5)))))
   \<and> (\<exists>oks c. calls (snd (snd (projr (group_greedy (demo_service 0 0)
                      (pair_group 0.5) (pair_state True 0.5)))))
         = calls (pair_state True 0.5) @ map (\<lambda>c. MapMove c True) oks @ [MapMove c False])"
proof -
  define S1 where "S1 = snd (snd (projr (group_greedy (demo_service 0 0)
                      (pair_group 0.5) (pair_state True 0.5))))"
  have g: "group_greedy (demo_service 0 0) (pair_group 0.5) (pair_state True 0.5)
             = Inr (False, True, S1)"
    unfolding S1_def by (rule pair_greedy)
  from group_greedy_direct_only[OF g]
  have "\<exists>oks c. calls S1
         = calls (pair_state True 0.5) @ map (\<lambda>c. MapMove c True) oks @ [MapMove c False]"
    by simp
  with g show ?thesis unfolding S1_def by blast
qed

theorem group_rollback_atomicity_witness:
  "group_greedy (demo_service 0 0) (pair_group 0.5) (pair_state True 0.5)
     = Inr (False, True,
         snd (snd (projr (group_greedy (demo_service 0 0) (pair_group 0.5)
                      (pair_state True 0.5)))))
   \<and> off_grid 0 (erase_group (pair_group 0.5)
        (snd (snd (projr (group_greedy (demo_service 0 0) (pair_group 0.5)
                      (pair_state True 0.5))))))
   \<and> off_grid 1 (erase_group (pair_group 0.5)
        (snd (snd (projr (group_greedy (demo_service 0 0) (pair_group 0.5)
                      (pair_state True 0.5))))))
   \<and> group_place (demo_service 0 0) (demo_uninit 3 4) (pair_group 0.5)
        (pair_state True 0.5)
      = Inr (brick_placement (demo_service 0 0) (demo_uninit 3 4) (pair_group 0.5)
          (erase_group (pair_group 0.5)
            (snd (snd (projr (group_greedy (demo_service 0 0) (pair_group 0.5)
                      (pair_state True 0.5)))))))"
proof -
  define S1 where "S1 = snd (snd (projr (group_greedy (demo_service 0 0)
                      (pair_group 0.5) (pair_state True 0.5))))"
  have g: "group_greedy (demo_service 0 0) (pair_group 0.5) (pair_state True 0.5)
             = Inr (False, True, S1)"
    unfolding S1_def by (rule pair_greedy)
  have s: "\<And>u. siblings (pair_group u) = [0, 1]" by (simp add: pair_group_def)
  have f: "\<not> True \<or> \<not> False" by simp
  note T = group_rollback_atomicity[OF g f, of "demo_uninit 3 4"]
  have "off_grid 0 (erase_group (pair_group 0.5) S1)"
    and "off_grid 1 (erase_group (pair_group 0.5) S1)"
    using T by (simp_all add: s)
  with g T show ?thesis unfolding S1_def by blast
qed

theorem brick_hold_exemption_witness:
  "keeps_hold (demo_service 0 0)
   \<and> hold (cell_of (set_hold 0 (pair_state True 0.5)) 0)
   \<and> (\<exists>es. calls (brick_placement_1 (demo_service 0 0) (demo_uninit 3 4)
                (pair_group 0.5) (set_hold 0 (pair_state True 0.5))) = es
          \<and> mset (map_move_at_cells es) = {#0, 1#})
   \<and> (\<exists>es. calls (brick_placement_2 (demo_service 0 0) (demo_uninit 3 4)
                (pair_group 0.5) (set_hold 0 (pair_state True 0.5))) = es
          \<and> mset (map_move_at_cells es) = {#1#})"
proof -
  let ?s = "set_hold 0 (pair_state True 0.5)"
  let ?D = "demo_service 0 0"
  have c: "calls ?s = []" by (simp add: set_hold_def pair_defs demo_defs)
  have h: "hold (cell_of ?s 0)" "\<not> hold (cell_of ?s 1)"
    by (simp_all add: set_hold_def pair_defs demo_defs)
  have s: "\<And>u. siblings (pair_group u) = [0, 1]" by (simp add: pair_group_def)
  have k: "keeps_hold ?D" by (rule demo_keeps_hold)
  note T = brick_hold_exemption[of ?D "demo_uninit 3 4" "pair_group 0.5" ?s]
  from T obtain es where
    "calls (brick_placement_1 ?D (demo_uninit 3 4) (pair_group 0.5) ?s) = calls ?s @ es"
    "mset (map_move_at_cells es) = mset (siblings (pair_group 0.5))" by blast
  then have a: "mset (map_move_at_cells
      (calls (brick_placement_1 ?D (demo_uninit 3 4) (pair_group 0.5) ?s))) = {#0, 1#}"
    unfolding c s by simp
  from T k obtain fs where
    "calls (brick_placement_2 ?D (demo_uninit 3 4) (pair_group 0.5) ?s) = calls ?s @ fs"
    "mset (map_move_at_cells fs)
       = mset (filter (\<lambda>c. \<not> hold (cell_of ?s c)) (siblings (pair_group 0.5)))" by blast
  then have b: "mset (map_move_at_cells
      (calls (brick_placement_2 ?D (demo_uninit 3 4) (pair_group 0.5) ?s))) = {#1#}"
    unfolding c s using h by simp
  from a b k h(1) show ?thesis by blast
qed

section \<open>The pre-placement snap of ungrouped cells\<close>


lemma overlap_regions_last:
  "overlap_regions svc c rects (ig, tg) =
     (ig \<or> filter (check_overlap svc c) rects \<noteq> [],
      if filter (check_overlap svc c) rects = [] then tg
      else Some (last (filter (check_overlap svc c) rects)))"
  unfolding overlap_regions_def
  by (induction rects arbitrary: ig tg) auto

lemma fold_overlap_groups:
  "fold (\<lambda>g. overlap_regions svc c (regions g)) gs (ig, tg) =
     (ig \<or> overlapping svc c gs \<noteq> [],
      if overlapping svc c gs = [] then tg else Some (last (overlapping svc c gs)))"
proof (induction gs arbitrary: ig tg)
  case Nil
  then show ?case by (simp add: overlapping_def)
next
  case (Cons g gs)
  show ?case
    by (simp add: Cons overlap_regions_last overlapping_def)
qed

lemma overlap_groups_last:
  "overlap_groups svc c gs =
     (overlapping svc c gs \<noteq> [],
      if overlapping svc c gs = [] then None else Some (last (overlapping svc c gs)))"
  unfolding overlap_groups_def by (simp add: fold_overlap_groups)

text \<open>
  Claim C7, as amended. \<open>non_group_cell_pre_placement\<close> handles the cells of \<^verbatim>\<open>cells_\<close>
  one after the other. A cell that is grouped, placed, or overlaps no region of any group
  is left as it is and no call is made for it. For an unplaced, ungrouped cell that
  overlaps some region, the snap target is the nearest boundary coordinate of the last
  overlapping region in group/region order; one commit is attempted there, and \<open>hold\<close> is
  set to true exactly when that commit succeeds.
\<close>

theorem non_group_snap_last_overlap:
  "non_group_cell_pre_placement svc s = fold (non_group_pre_place_cell svc) [0..<cells_n s] s
   \<and> non_group_pre_place_cell svc i s =
     (if in_group (cell_of s i) \<or> is_placed (cell_of s i)
         \<or> overlapping svc (cell_of s i) (groups s) = []
      then s
      else (let (x, y) = nearest_coord_to_rect_boundary svc (cell_of s i)
                           (last (overlapping svc (cell_of s i) (groups s)));
                (ok, w) = map_move_at svc i x y (st s);
                s1 = s\<lparr>st := w, calls := calls s @ [MapMoveAt i x y ok]\<rparr>
            in if ok then set_hold i s1 else s1))"
  by (auto simp: non_group_cell_pre_placement_def non_group_pre_place_cell_def
      overlap_groups_last call_map_move_at_def Let_def split: prod.splits)

text \<open>
  A cell that overlaps two regions: the first one would give the target \<open>(0, 0)\<close>, the
  commit is attempted at \<open>(4, 4)\<close>, the nearest corner of the second.
\<close>

theorem non_group_snap_first_overlap_counterexample:
  "overlapping (demo_service 0 0) (cell_of snap_state 0) (groups snap_state)
     = [demo_rect 0 0 20 20, demo_rect 4 4 6 30]
   \<and> nearest_coord_to_rect_boundary (demo_service 0 0) (cell_of snap_state 0)
        (demo_rect 0 0 20 20) = (0, 0)
   \<and> calls (non_group_cell_pre_placement (demo_service 0 0) snap_state)
        = [MapMoveAt 0 4 4 True]"
  by (simp add: overlapping_def snap_state_def snap_groups_def non_group_cell_pre_placement_def
      non_group_pre_place_cell_def overlap_groups_def overlap_regions_def
      demo_defs call_defs Let_def)

theorem non_group_snap_last_overlap_witness:
  "\<not> in_group (cell_of snap_state 0) \<and> \<not> is_placed (cell_of snap_state 0)
   \<and> last (overlapping (demo_service 0 0) (cell_of snap_state 0) (groups snap_state))
       = demo_rect 4 4 6 30
   \<and> calls (non_group_pre_place_cell (demo_service 0 0) 0 snap_state)
       = [MapMoveAt 0 4 4 True]
   \<and> hold (cell_of (non_group_pre_place_cell (demo_service 0 0) 0 snap_state) 0)"
proof -
  let ?D = "demo_service 0 0"
  have o: "overlapping ?D (cell_of snap_state 0) (groups snap_state)
             = [demo_rect 0 0 20 20, demo_rect 4 4 6 30]"
    by (simp add: overlapping_def snap_state_def snap_groups_def demo_defs)
  have c: "\<not> in_group (cell_of snap_state 0)" "\<not> is_placed (cell_of snap_state 0)"
    "calls snap_state = []"
    by (simp_all add: snap_state_def demo_defs)
  have n: "nearest_coord_to_rect_boundary ?D (cell_of snap_state 0) (demo_rect 4 4 6 30) = (4, 4)"
    by (simp add: snap_state_def demo_defs)
  have m: "map_move_at ?D 0 4 4 (st snap_state) = (True, snd (map_move_at ?D 0 4 4 (st snap_state)))"
    by (simp add: snap_state_def demo_defs)
  from non_group_snap_last_overlap[of ?D snap_state 0]
  have "non_group_pre_place_cell ?D 0 snap_state
          = set_hold 0 (snap_state\<lparr>st := snd (map_move_at ?D 0 4 4 (st snap_state)),
                                    calls := [MapMoveAt 0 4 4 True]\<rparr>)"
    unfolding o using c n m by (simp add: Let_def split: prod.splits)
  then show ?thesis using o c by (simp add: set_hold_def)
qed

section \<open>The order of refinement\<close>


lemma sort_by_unordered: "sort_by (\<lambda>a b. False) xs = xs"
  by (induction xs) (auto, case_tac "sort_by (\<lambda>a b. False) xs", auto)

lemma group_refine_sibling_order:
  "group_refine svc g s =
     refine_loop svc (siblings g) (real (length (siblings g)) * group_refine_percent s) 0 0 s"
proof -
  have f: "(\<lambda>cell1 cell2. disp svc (cell_of s cell1) > disp svc (cell_of s cell1))
          = (\<lambda>a b. False)" by simp
  show ?thesis
    unfolding group_refine_def Let_def f sort_by_unordered ..
qed

text \<open>
  Claim C5 at a group of two siblings with displacements 1 and 5 and the fraction one
  half: \<open>group_refine\<close> tries the first sibling, of displacement 1, and not the most
  displaced one; \<open>non_group_refine\<close> on the same two cells, ungrouped, tries the cell of
  displacement 5.
\<close>

theorem group_refine_order_at_example:
  "disp (demo_service 0 0) (cell_of (moved_state True) 0) = 1
   \<and> disp (demo_service 0 0) (cell_of (moved_state True) 1) = 5
   \<and> map_sum id (map_prod id calls)
        (group_refine (demo_service 0 0) (pair_group 0.5) (moved_state True))
       = Inr (1, [RefineMove 0 True])
   \<and> map_sum id (map_prod id calls)
        (non_group_refine (demo_service 0 0) (moved_state False))
       = Inr (1, [RefineMove 1 True])"
  by (simp add: group_refine_def non_group_refine_def moved_state_def moved_cells_def
      pair_group_def demo_defs call_defs Let_def upt_rec)

lemma refine_loop_returns:
  "bound \<le> real (length xs) \<Longrightarrow> \<exists>n s'. refine_loop svc xs bound i cnt s = Inr (n, s')"
proof (induction svc xs bound i cnt s rule: refine_loop.induct)
  case (1 svc xs bound i cnt s)
  show ?case
  proof (cases "real i < bound")
    case False
    then show ?thesis by simp
  next
    case t1: True
    with "1.prems" have t2: "i < length xs" by simp
    show ?thesis
    proof (cases "hold (cell_of s (xs ! i))")
      case True
      from "1.IH"(2)[OF t1 t2 refl _ "1.prems"] True t1 t2 show ?thesis by simp
    next
      case False
      obtain ok s1 where c: "call_refine_move svc (xs ! i) s = (ok, s1)"
        by (cases "call_refine_move svc (xs ! i) s")
      from "1.IH"(1)[OF t1 t2 refl False refl c[symmetric] "1.prems"] False t1 t2 c
      show ?thesis by simp
    qed
  qed
qed

lemma group_refine_returns:
  assumes "group_refine_percent s \<le> 1"
  shows "\<exists>n s'. group_refine svc g s = Inr (n, s')"
proof -
  have "real (length (siblings g)) * group_refine_percent s \<le> real (length (siblings g))"
    using assms by (simp add: mult_left_le)
  then show ?thesis
    unfolding group_refine_sibling_order by (rule refine_loop_returns)
qed

lemma non_group_refine_returns:
  assumes "non_group_refine_percent s \<le> 1"
  shows "\<exists>n s'. non_group_refine svc s = Inr (n, s')"
proof -
  have "real (length xs) * non_group_refine_percent s \<le> real (length xs)" for xs :: "nat list"
    using assms by (simp add: mult_left_le)
  then show ?thesis
    unfolding non_group_refine_def Let_def by (intro refine_loop_returns)
qed

theorem hold_freeze_witness:
  "moves_only_args (demo_service 0 0)
   \<and> hold (cell_of (set_hold 1 (moved_state True)) 1)
   \<and> (\<exists>n s'. group_refine (demo_service 0 0) (pair_group 0.5)
                 (set_hold 1 (moved_state True)) = Inr (n, s')
             \<and> frozen 1 (set_hold 1 (moved_state True)) s')
   \<and> (\<exists>n s'. non_group_refine (demo_service 0 0)
                 (set_hold 1 (moved_state True)) = Inr (n, s')
             \<and> frozen 1 (set_hold 1 (moved_state True)) s')
   \<and> frozen 1 (set_hold 1 (moved_state True))
        (snd (group_annealing (demo_service 0 0) (pair_group 0.5)
               (set_hold 1 (moved_state True))))
   \<and> frozen 1 (set_hold 1 (moved_state True))
        (snd (non_group_annealing (demo_service 0 0)
               (set_hold 1 (moved_state True))))"
proof -
  let ?D = "demo_service 0 0"
  define s where "s = set_hold 1 (moved_state True)"
  have m: "moves_only_args ?D" by (rule demo_moves_only_args)
  have h: "hold (cell_of s 1)" by (simp add: s_def set_hold_def)
  have p: "group_refine_percent s \<le> 1" "non_group_refine_percent s \<le> 1"
    by (simp_all add: s_def set_hold_def moved_state_def demo_state_def)
  note T = hold_freeze[OF m h, of "pair_group 0.5"]
  from group_refine_returns[OF p(1), of ?D "pair_group 0.5"] T
  have a: "\<exists>n s'. group_refine ?D (pair_group 0.5) s = Inr (n, s') \<and> frozen 1 s s'" by blast
  from non_group_refine_returns[OF p(2), of ?D] T
  have b: "\<exists>n s'. non_group_refine ?D s = Inr (n, s') \<and> frozen 1 s s'" by blast
  from m h a b T show ?thesis unfolding s_def by blast
qed

lemma anneal_loop_all_held:
  "\<forall>k<n. hold (cell_of s (pick k)) \<Longrightarrow> 0 < n \<Longrightarrow>
     fst (anneal_loop svc pick n trials cnt s) = cnt"
proof (induction trials arbitrary: s)
  case 0
  then show ?case by simp
next
  case (Suc trials)
  obtain r1 s1 where a: "call_rand svc s = (r1, s1)" by (cases "call_rand svc s")
  obtain r2 s2 where b: "call_rand svc s1 = (r2, s2)" by (cases "call_rand svc s1")
  have st: "st s2 = st s" using a b by (auto simp: call_rand_def split: prod.splits)
  have "hold (cell_of s2 (pick (r1 mod n)))" using Suc.prems st by simp
  moreover have "\<forall>k<n. hold (cell_of s2 (pick k))" using Suc.prems st by simp
  ultimately show ?case using Suc.IH[of s2] Suc.prems(2) a b by simp
qed

theorem round_cutoff_witness:
  "group_rounds (demo_service 0 0) corner_group 0 (set_hold 0 corner_state)
     = Inr ([(0, 0)], snd (group_annealing (demo_service 0 0) corner_group
                             (set_hold 0 corner_state)))
   \<and> run_rounds (demo_service 0 0) corner_group 1 (set_hold 0 corner_state)
     = Inr ([(0, 0)], snd (group_annealing (demo_service 0 0) corner_group
                             (set_hold 0 corner_state)))
   \<and> trips (0, 0)"
proof -
  let ?D = "demo_service 0 0"
  define s where "s = set_hold 0 corner_state"
  have r: "group_refine ?D corner_group s = Inr (0, s)"
    by (simp add: group_refine_def s_def set_hold_def corner_group_def corner_state_def
        demo_state_def)
  have "fst (group_annealing ?D corner_group s) = 0"
    unfolding group_annealing_def
    by (rule anneal_loop_all_held) (simp_all add: s_def set_hold_def srand_def corner_group_def)
  then have an: "group_annealing ?D corner_group s = (0, snd (group_annealing ?D corner_group s))"
    by (metis prod.collapse)
  have g: "group_rounds ?D corner_group 0 s
             = Inr ([(0, 0)], snd (group_annealing ?D corner_group s))"
    by (subst group_rounds.simps) (simp add: r, subst an, simp)
  from round_cutoff[OF g] g show ?thesis
    unfolding s_def by (simp add: trips_def)
qed

section \<open>Targets of the brick placer and the whole run\<close>


lemma rectDist_ignores_rect: "rectDist svc xy c r = rectDist svc xy c r'"
  by (simp add: rectDist_def Let_def split: prod.splits)

lemma brick_placement_1_ignores_boundary:
  "brick_placement_1 svc un (g\<lparr>boundary := b\<rparr>) s = brick_placement_1 svc un g s"
proof -
  have c: "brick_1_cell svc un (g\<lparr>boundary := b\<rparr>) = brick_1_cell svc un g"
    by (intro ext) (simp add: brick_1_cell_def Let_def split: prod.splits)
  show ?thesis
    unfolding brick_placement_1_def Let_def c
    by (simp add: rectDist_ignores_rect[of svc _ _ b "boundary g"])
qed

text \<open>
  Claim C6 at a group bounded by \<open>(0, 0, 10, 10)\<close> with one sibling whose original target
  is \<open>(8, 8)\<close>: the nearest corner is \<open>(10, 10)\<close>, and \<open>brick_placement_1\<close> attempts the
  commit at whatever its unwritten locals \<^verbatim>\<open>x_tar\<close>, \<^verbatim>\<open>y_tar\<close> hold, here \<open>(3, 4)\<close> and
  \<open>(7, 4)\<close>.
\<close>

theorem brick_placement_1_target_at_example:
  "initLocation (demo_service 8 8) (cell_of corner_state 0) = (8, 8)
   \<and> rectDist_tar (demo_service 8 8) (cell_of corner_state 0) (boundary corner_group) 3 4
       = (10, 10)
   \<and> calls (brick_placement_1 (demo_service 8 8) (demo_uninit 3 4) corner_group
        corner_state) = [MapMoveAt 0 3 4 True]
   \<and> calls (brick_placement_1 (demo_service 8 8) (demo_uninit 7 4) corner_group
        corner_state) = [MapMoveAt 0 7 4 True]"
  by (simp add: brick_placement_1_def brick_1_cell_def rectDist_def rectDist_tar_def cdiv_def
      corner_group_def corner_state_def demo_defs call_defs Let_def)

text \<open>Both annealers start from the seed 777 whatever the generator's state was.\<close>

lemma group_annealing_reseeds:
  "group_annealing svc g (s\<lparr>seed := n\<rparr>) = group_annealing svc g (s\<lparr>seed := m\<rparr>)"
  by (simp add: group_annealing_def srand_def)

lemma non_group_annealing_reseeds:
  "non_group_annealing svc (s\<lparr>seed := n\<rparr>) = non_group_annealing svc (s\<lparr>seed := m\<rparr>)"
  by (simp add: non_group_annealing_def srand_def)

lemma anneal_loop_self_swap:
  assumes "\<And>w. swap_cell svc (pick 0) (pick 0) w = (False, w)"
  shows "\<exists>sd es. anneal_loop svc pick 1 trials cnt s = (cnt, s\<lparr>seed := sd, calls := es\<rparr>)"
proof (induction trials arbitrary: s)
  case 0
  have "s = s\<lparr>seed := seed s, calls := calls s\<rparr>" by simp
  then show ?case by (metis anneal_loop.simps(1))
next
  case (Suc trials)
  obtain r1 sd1 where a: "rand_next svc (seed s) = (r1, sd1)" by (cases "rand_next svc (seed s)")
  obtain r2 sd2 where b: "rand_next svc sd1 = (r2, sd2)" by (cases "rand_next svc sd1")
  let ?s2 = "s\<lparr>seed := sd2\<rparr>"
  let ?s3 = "s\<lparr>seed := sd2, calls := calls s @ [SwapCell (pick 0) (pick 0) False]\<rparr>"
  have "anneal_loop svc pick 1 (Suc trials) cnt s = anneal_loop svc pick 1 trials cnt ?s2
      \<or> anneal_loop svc pick 1 (Suc trials) cnt s = anneal_loop svc pick 1 trials cnt ?s3"
    using a b assms by (simp add: call_rand_def call_swap_cell_def Let_def)
  then show ?case
  proof
    assume e: "anneal_loop svc pick 1 (Suc trials) cnt s = anneal_loop svc pick 1 trials cnt ?s2"
    from Suc[of ?s2] obtain sd es where
      "anneal_loop svc pick 1 trials cnt ?s2 = (cnt, ?s2\<lparr>seed := sd, calls := es\<rparr>)" by blast
    with e have "anneal_loop svc pick 1 (Suc trials) cnt s = (cnt, s\<lparr>seed := sd, calls := es\<rparr>)"
      by simp
    then show ?thesis by blast
  next
    assume e: "anneal_loop svc pick 1 (Suc trials) cnt s = anneal_loop svc pick 1 trials cnt ?s3"
    from Suc[of ?s3] obtain sd es where
      "anneal_loop svc pick 1 trials cnt ?s3 = (cnt, ?s3\<lparr>seed := sd, calls := es\<rparr>)" by blast
    with e have "anneal_loop svc pick 1 (Suc trials) cnt s = (cnt, s\<lparr>seed := sd, calls := es\<rparr>)"
      by simp
    then show ?thesis by blast
  qed
qed

lemma run_pre_placed:
  "non_group_cell_pre_placement (demo_service 0 0)
     (group_cell_pre_placement (demo_service 0 0) (demo_uninit x y) run_state)
   = set_hold 1 (snd (call_map_move_at (demo_service 0 0) 1 0 0 run_state))"
  by (simp add: non_group_cell_pre_placement_def non_group_pre_place_cell_def
      group_cell_pre_placement_def group_pre_place_cell_def nearest_region_def INT_MAX_def
      overlap_groups_def overlap_regions_def run_state_def run_cells_def corner_group_def
      demo_defs call_defs Let_def upt_rec)

lemma run_group_placed:
  "x \<noteq> 0 \<Longrightarrow> \<exists>w es. group_cell_placement (demo_service 0 0) (demo_uninit x y)
     (set_hold 1 (snd (call_map_move_at (demo_service 0 0) 1 0 0 run_state)))
   = Inr (run_state\<lparr>st := w, calls := es\<rparr>)
   \<and> x_coord (cell w 0) = x \<and> y_coord (cell w 0) = y \<and> \<not> hold (cell w 0)
   \<and> is_placed (cell w 0) \<and> in_group (cell w 0) \<and> is_placed (cell w 1)
   \<and> inst_id (cell w 0) = 1 \<and> grid w (0, 0) = Some 1"
  by (simp add: group_cell_placement_def group_place_def group_greedy_def
      sorted_cell_list_def sortUpOrder_def erase_group_def brick_placement_def
      brick_placement_1_def brick_1_cell_def rectDist_def rectDist_tar_def cdiv_def
      run_state_def run_cells_def corner_group_def demo_defs call_defs Let_def)


lemma run_rounds_done:
  assumes "groups s = [corner_group]" "group_refine_percent s = 0.5"
    "\<not> hold (cell_of s 0)" "is_placed (cell_of s 0)" "inst_id (cell_of s 0) = 1"
    "grid (st s) (0, 0) = Some 1"
  shows "\<exists>sd es. refine_anneal_groups (demo_service 0 0) (groups s) s
           = Inr (s\<lparr>seed := sd, calls := es\<rparr>)"
proof -
  let ?D = "demo_service 0 0"
  let ?s1 = "s\<lparr>calls := calls s @ [RefineMove 0 False]\<rparr>"
  have r: "group_refine ?D corner_group s = Inr (0, ?s1)"
    using assms
    by (simp add: group_refine_def corner_group_def demo_defs call_defs Let_def)
  have sw: "\<And>w. swap_cell ?D ((\<lambda>k. siblings corner_group ! k) 0)
                   ((\<lambda>k. siblings corner_group ! k) 0) w = (False, w)"
    by (simp add: demo_service_def demo_swap_def)
  from anneal_loop_self_swap[of ?D "\<lambda>k. siblings corner_group ! k", OF sw, of 1000 0 "srand 777 ?s1"]
  obtain sd es where
    an: "group_annealing ?D corner_group ?s1 = (0, s\<lparr>seed := sd, calls := es\<rparr>)"
    by (auto simp: group_annealing_def corner_group_def srand_def)
  have "group_rounds ?D corner_group 0 s = Inr ([(0, 0)], s\<lparr>seed := sd, calls := es\<rparr>)"
    by (subst group_rounds.simps) (simp add: r an)
  then show ?thesis using assms(1) by auto
qed

lemma run_nothing_left:
  assumes "cells_n s = 2" "in_group (cell_of s 0)" "is_placed (cell_of s 1)"
  shows "non_group_cell_placement svc s = s"
  using assms by (simp add: non_group_cell_placement_def sorted_cell_list_def upt_rec Let_def)

text \<open>
  Claim C2 at a run where the greedy pass of a group of utilisation 0.96 fails: on the same
  cells, groups, grid service and random generator, the final position of cell 0 is the
  value of the unwritten locals of \<open>brick_placement_1\<close>, \<open>(3, 4)\<close> in one run and \<open>(7, 4)\<close>
  in another.
\<close>

theorem pipeline_depends_on_uninitialised:
  "final_position 0 (simplePlacement (demo_service 0 0) (demo_uninit 3 4) run_state)
     = Inr (3, 4)
   \<and> final_position 0 (simplePlacement (demo_service 0 0) (demo_uninit 7 4) run_state)
     = Inr (7, 4)"
proof -
  let ?D = "demo_service 0 0"
  have "final_position 0 (simplePlacement ?D (demo_uninit x y) run_state) = Inr (x, y)"
    if x: "x \<noteq> 0" for x y
  proof -
    define s3 where "s3 = set_hold 1 (snd (call_map_move_at ?D 1 0 0 run_state))"
    have p: "non_group_cell_pre_placement ?D (group_cell_pre_placement ?D (demo_uninit x y) run_state)
               = s3"
      unfolding s3_def by (rule run_pre_placed)
    have g3: "groups s3 = [corner_group]"
      unfolding s3_def
      by (simp add: set_hold_def call_map_move_at_def run_state_def demo_state_def
          split: prod.splits)
    from run_group_placed[OF x, of y] obtain w es where
      g: "group_cell_placement ?D (demo_uninit x y) s3 = Inr (run_state\<lparr>st := w, calls := es\<rparr>)"
      and w: "x_coord (cell w 0) = x" "y_coord (cell w 0) = y" "\<not> hold (cell w 0)"
        "is_placed (cell w 0)" "in_group (cell w 0)" "is_placed (cell w 1)"
        "inst_id (cell w 0) = 1" "grid w (0, 0) = Some 1"
      unfolding s3_def by blast
    let ?s4 = "run_state\<lparr>st := w, calls := es\<rparr>"
    have f: "groups ?s4 = [corner_group]" "group_refine_percent ?s4 = 0.5" "cells_n ?s4 = 2"
      by (simp_all add: run_state_def demo_state_def)
    from run_rounds_done[of ?s4] f w obtain sd es' where
      r: "refine_anneal_groups ?D [corner_group] ?s4 = Inr (?s4\<lparr>seed := sd, calls := es'\<rparr>)"
      by (auto simp del: refine_anneal_groups.simps)
    let ?s5 = "?s4\<lparr>seed := sd, calls := es'\<rparr>"
    have n: "non_group_cell_placement ?D ?s5 = ?s5"
      by (rule run_nothing_left) (use f w in simp_all)
    have ra: "call_non_group_cell_region_assign ?D (call_group_cell_region_assign ?D run_state)
                = run_state"
      by (simp add: call_non_group_cell_region_assign_def call_group_cell_region_assign_def
          demo_service_def)
    have gr: "groups run_state = [corner_group]" by (simp add: run_state_def demo_state_def)
    have "simplePlacement ?D (demo_uninit x y) run_state = Inr ?s5"
      unfolding simplePlacement_def
      by (simp add: gr ra p g3 g r n[simplified] Let_def del: refine_anneal_groups.simps)
    then show ?thesis using w by (simp add: final_position_def)
  qed
  from this[of 3 4] this[of 7 4] show ?thesis by simp
qed

end
